theory Spec2Isabelle
  imports
    Main
    "HOL-Library.Word"
    "HOL-Library.Multiset"
    "HOL-Library.Char_ord"
    "HOL-Library.List_Lexorder"
    "HOL-Library.Product_Lexorder"
    "HOL-Library.AList"
begin

section \<open>Service health events of a catalog transaction\<close>

text \<open>
  A shallow embedding of \<^verbatim>\<open>agent/consul/state/stream_event_service_health.go\<close>:
  \<^verbatim>\<open>txnServiceHealthEvents\<close>, \<^verbatim>\<open>nodeServiceHealth\<close>,
  \<^verbatim>\<open>checkServiceNodesToServiceHealth\<close> and \<^verbatim>\<open>serviceHealthDeregisterEvent\<close>.
  Go strings are byte sequences compared bytewise, which is the lexicographic order of
  \<^typ>\<open>string\<close> over the byte order of \<^typ>\<open>char\<close>.
\<close>

subsection \<open>Transaction operations\<close>

text \<open>
  Modelled from the spec: the verb types \<^verbatim>\<open>api.NodeOp\<close>, \<^verbatim>\<open>api.ServiceOp\<close> and
  \<^verbatim>\<open>api.CheckOp\<close> are declared outside the source file. The file names the constants
  \<^verbatim>\<open>NodeGet\<close>, \<^verbatim>\<open>NodeDelete\<close>, \<^verbatim>\<open>NodeDeleteCAS\<close>, \<^verbatim>\<open>ServiceGet\<close> and
  \<^verbatim>\<open>CheckGet\<close>; the specification lists the verbs Get, Register, Delete and
  DeleteConditional for each kind of mutation.
\<close>

datatype NodeOp = NodeGet | NodeRegister | NodeDelete | NodeDeleteCAS

datatype ServiceOp = ServiceGet | ServiceRegister | ServiceDelete | ServiceDeleteCAS

datatype CheckOp = CheckGet | CheckRegister | CheckDelete | CheckDeleteCAS

text \<open>
  The structs below carry the fields the file reads (and a few sibling fields that tell
  two values apart). \<^verbatim>\<open>Node\<close> stands for both \<^verbatim>\<open>structs.Node\<close> and
  \<^verbatim>\<open>stream.Node\<close>, and likewise for the service and the check-service-node structs.
\<close>

record Node =
  Node_Node :: string

record NodeService =
  NodeService_ID :: string
  NodeService_Service :: string

record HealthCheck =
  HealthCheck_Node :: string
  HealthCheck_CheckID :: string
  HealthCheck_Status :: string

record TxnNodeOp =
  TxnNodeOp_Verb :: NodeOp
  TxnNodeOp_Node :: Node

record TxnServiceOp =
  TxnServiceOp_Verb :: ServiceOp
  TxnServiceOp_Node :: string

record TxnCheckOp =
  TxnCheckOp_Verb :: CheckOp
  TxnCheckOp_Check :: HealthCheck

text \<open>
  \<^verbatim>\<open>structs.TxnOp\<close>: a struct of pointers, each of which may be nil. The file tests
  \<^verbatim>\<open>op.Node\<close>, \<^verbatim>\<open>op.Service\<close> and \<^verbatim>\<open>op.Check\<close> in this order; an operation of
  another kind has all three nil.
\<close>

record TxnOp =
  TxnOp_Node :: "TxnNodeOp option"
  TxnOp_Service :: "TxnServiceOp option"
  TxnOp_Check :: "TxnCheckOp option"

subsection \<open>Health views and events\<close>

text \<open>
  \<^verbatim>\<open>CheckServiceNode\<close>: the health view of one service instance on one node, or of the
  bare node when \<^verbatim>\<open>Service\<close> is nil. The node pointer is set by the join and by
  \<^verbatim>\<open>serviceHealthDeregisterEvent\<close>, so the model gives it no nil value.
\<close>

record CheckServiceNode =
  CSN_Node :: Node
  CSN_Service :: "NodeService option"
  CSN_Checks :: "HealthCheck list"

datatype Topic = Topic_ServiceHealth | Topic_ServiceHealthConnect

datatype CatalogOp = CatalogOp_Register | CatalogOp_Deregister

record ServiceHealthUpdate =
  Op :: CatalogOp
  CheckServiceNode :: CheckServiceNode

datatype Payload = Event_ServiceHealth ServiceHealthUpdate

record Event =
  Topic :: Topic
  Key :: string
  Index :: "64 word"
  Payload :: Payload

fun GetServiceHealth :: "Event \<Rightarrow> ServiceHealthUpdate" where
  "GetServiceHealth e = (case Payload e of Event_ServiceHealth u \<Rightarrow> u)"

text \<open>
  Modelled from the spec: \<^verbatim>\<open>stream.ToCheckServiceNode\<close> is declared outside the source
  file. The specification's Upsert event carries the health view itself, so the
  conversion keeps node, service and checks as they are.
\<close>

definition ToCheckServiceNode :: "CheckServiceNode \<Rightarrow> CheckServiceNode" where
  "ToCheckServiceNode n = n"

text \<open>
  Modelled from the spec: \<^verbatim>\<open>stream.EventBuffer\<close> and its \<^verbatim>\<open>Append\<close> are declared
  outside the source file. The specification describes an append-only log that takes
  what it is handed, in order; the model keeps the log of the batches appended.
\<close>

type_synonym EventBuffer = "Event list list"

definition Append :: "EventBuffer \<Rightarrow> Event list \<Rightarrow> EventBuffer" where
  "Append buf items = buf @ [items]"

subsection \<open>The snapshot and the runtime\<close>

datatype err = Err string

text \<open>
  The store and the transaction enter the file through two methods that are declared
  outside it, \<^verbatim>\<open>nodeServicesTxn\<close> and \<^verbatim>\<open>parseCheckServiceNodes\<close>; the snapshot is the
  pair of them. \<open>Inl\<close> is a call that returns a non-nil error. The services value is
  passed from the first to the second and not read in between, so its type is a
  parameter.
\<close>

record 's Store =
  nodeServicesTxn :: "string \<Rightarrow> err + 's"
  parseCheckServiceNodes :: "64 word \<Rightarrow> 's \<Rightarrow> err + CheckServiceNode list"

text \<open>
  Two services of the Go runtime are not determined by the program: the order in which
  \<^verbatim>\<open>range\<close> yields the entries of a map, and the arrangement \<^verbatim>\<open>sort.Slice\<close> leaves
  among elements that compare equal (the library documents the sort as not guaranteed
  to be stable). Both are parameters of a run. \<open>map_range\<close> takes the entries of a
  map and yields them in the order of the iteration.
\<close>

record Runtime =
  map_range :: "(string \<times> bool) list \<Rightarrow> (string \<times> bool) list"
  sort_Slice :: "(Event \<Rightarrow> Event \<Rightarrow> bool) \<Rightarrow> Event list \<Rightarrow> Event list"

definition strict_weak_order :: "('a \<Rightarrow> 'a \<Rightarrow> bool) \<Rightarrow> bool" where
  "strict_weak_order lt \<longleftrightarrow>
     (\<forall>a. \<not> lt a a) \<and>
     (\<forall>a b c. lt a b \<longrightarrow> lt b c \<longrightarrow> lt a c) \<and>
     (\<forall>a b c. \<not> lt a b \<longrightarrow> \<not> lt b c \<longrightarrow> \<not> lt a c)"

text \<open>
  What a run may rely on: \<^verbatim>\<open>range\<close> yields every entry once, and \<^verbatim>\<open>sort.Slice\<close>
  rearranges the slice so that no element is less than one before it, for a comparison
  that is a strict weak order.
\<close>

definition go_runtime :: "Runtime \<Rightarrow> bool" where
  "go_runtime rt \<longleftrightarrow>
     (\<forall>m. mset (map_range rt m) = mset m) \<and>
     (\<forall>lt xs. strict_weak_order lt \<longrightarrow>
        mset (sort_Slice rt lt xs) = mset xs \<and>
        sorted_wrt (\<lambda>a b. \<not> lt b a) (sort_Slice rt lt xs))"

subsection \<open>The functions of the file\<close>

text \<open>\<^verbatim>\<open>serviceHealthDeregisterEvent\<close>; the fields the literal leaves out are zero.\<close>

definition serviceHealthDeregisterEvent :: "64 word \<Rightarrow> string \<Rightarrow> Event" where
  "serviceHealthDeregisterEvent idx node =
     \<lparr>Topic = Topic_ServiceHealth,
      Key = [],
      Index = idx,
      Payload = Event_ServiceHealth
        \<lparr>Op = CatalogOp_Deregister,
         CheckServiceNode = \<lparr>CSN_Node = \<lparr>Node_Node = node\<rparr>, CSN_Service = None, CSN_Checks = []\<rparr>\<rparr>\<rparr>"

text \<open>
  The event \<^verbatim>\<open>checkServiceNodesToServiceHealth\<close> builds for one element \<open>n\<close> of
  \<^verbatim>\<open>nodes\<close> (the statements of the loop body before the test of \<^verbatim>\<open>buf\<close>).
\<close>

definition registerEvent :: "64 word \<Rightarrow> bool \<Rightarrow> CheckServiceNode \<Rightarrow> Event" where
  "registerEvent idx connect n =
     \<lparr>Topic = (if connect then Topic_ServiceHealthConnect else Topic_ServiceHealth),
      Key = (case CSN_Service n of Some sv \<Rightarrow> NodeService_Service sv | None \<Rightarrow> []),
      Index = idx,
      Payload = Event_ServiceHealth
        \<lparr>Op = CatalogOp_Register, CheckServiceNode = ToCheckServiceNode n\<rparr>\<rparr>"

text \<open>
  The loop of \<^verbatim>\<open>checkServiceNodesToServiceHealth\<close>, with the slice \<open>events\<close> and the
  buffer behind the pointer \<open>buf\<close> as its state.
\<close>

fun toServiceHealth_loop ::
  "64 word \<Rightarrow> bool \<Rightarrow> CheckServiceNode list \<Rightarrow> EventBuffer option \<Rightarrow> Event list
    \<Rightarrow> Event list \<times> EventBuffer option" where
  "toServiceHealth_loop idx connect [] buf events = (events, buf)"
| "toServiceHealth_loop idx connect (n # nodes) buf events =
     (let event = registerEvent idx connect n in
      case buf of
        Some b \<Rightarrow> toServiceHealth_loop idx connect nodes (Some (Append b [event])) events
      | None \<Rightarrow> toServiceHealth_loop idx connect nodes None (events @ [event]))"

definition checkServiceNodesToServiceHealth ::
  "64 word \<Rightarrow> CheckServiceNode list \<Rightarrow> EventBuffer option \<Rightarrow> bool
    \<Rightarrow> Event list \<times> EventBuffer option" where
  "checkServiceNodesToServiceHealth idx nodes buf connect =
     toServiceHealth_loop idx connect nodes buf []"

text \<open>
  \<^verbatim>\<open>nodeServiceHealth\<close>. A Go result \<^verbatim>\<open>(events, err)\<close> is a pair whose second part is
  \<open>None\<close> for a nil error; a nil slice is the empty list.
\<close>

definition nodeServiceHealth :: "'s Store \<Rightarrow> 64 word \<Rightarrow> string \<Rightarrow> Event list \<times> err option" where
  "nodeServiceHealth s idx nodeName =
     (case nodeServicesTxn s nodeName of
        Inl e \<Rightarrow> ([], Some e)
      | Inr services \<Rightarrow>
          (case parseCheckServiceNodes s idx services of
             Inl e \<Rightarrow> ([], Some e)
           | Inr nodes \<Rightarrow> (fst (checkServiceNodesToServiceHealth idx nodes None False), None)))"

text \<open>
  The first loop of \<^verbatim>\<open>txnServiceHealthEvents\<close>. The map \<open>nodes\<close> is an association
  list with one pair per key; \<^verbatim>\<open>nodes[k] = v\<close> is \<^const>\<open>AList.update\<close>.
\<close>

definition collect_op :: "(string \<times> bool) list \<Rightarrow> TxnOp \<Rightarrow> (string \<times> bool) list" where
  "collect_op nodes op =
     (case TxnOp_Node op of
        Some n \<Rightarrow>
          if TxnNodeOp_Verb n = NodeGet then nodes
          else AList.update (Node_Node (TxnNodeOp_Node n))
                 (TxnNodeOp_Verb n = NodeDelete \<or> TxnNodeOp_Verb n = NodeDeleteCAS) nodes
      | None \<Rightarrow>
          (case TxnOp_Service op of
             Some sv \<Rightarrow>
               if TxnServiceOp_Verb sv = ServiceGet then nodes
               else AList.update (TxnServiceOp_Node sv) False nodes
           | None \<Rightarrow>
               (case TxnOp_Check op of
                  Some c \<Rightarrow>
                    if TxnCheckOp_Verb c = CheckGet then nodes
                    else AList.update (HealthCheck_Node (TxnCheckOp_Check c)) False nodes
                | None \<Rightarrow> nodes)))"

definition collect_nodes :: "TxnOp list \<Rightarrow> (string \<times> bool) list" where
  "collect_nodes ops = foldl collect_op [] ops"

text \<open>
  The second loop, over the entries in the order the iteration yields them. An error of
  \<^verbatim>\<open>nodeServiceHealth\<close> leaves the loop with \<^verbatim>\<open>return nil, err\<close>.
\<close>

fun expand_nodes ::
  "'s Store \<Rightarrow> 64 word \<Rightarrow> (string \<times> bool) list \<Rightarrow> Event list \<Rightarrow> Event list \<times> err option" where
  "expand_nodes s idx [] events = (events, None)"
| "expand_nodes s idx ((node, deregister) # rest) events =
     (if deregister
      then expand_nodes s idx rest (events @ [serviceHealthDeregisterEvent idx node])
      else
        (case nodeServiceHealth s idx node of
           (evt, Some e) \<Rightarrow> ([], Some e)
         | (evt, None) \<Rightarrow> expand_nodes s idx rest (events @ evt)))"

text \<open>The comparison handed to \<^verbatim>\<open>sort.Slice\<close>, on the two events it is asked about.\<close>

definition event_less :: "Event \<Rightarrow> Event \<Rightarrow> bool" where
  "event_less ei ej =
     (let a = CheckServiceNode (GetServiceHealth ei);
          b = CheckServiceNode (GetServiceHealth ej)
      in if Node_Node (CSN_Node a) \<noteq> Node_Node (CSN_Node b)
         then Node_Node (CSN_Node a) < Node_Node (CSN_Node b)
         else
           (let svcA = (case CSN_Service a of Some sv \<Rightarrow> NodeService_Service sv | None \<Rightarrow> []);
                svcB = (case CSN_Service b of Some sv \<Rightarrow> NodeService_Service sv | None \<Rightarrow> [])
            in svcA < svcB))"

definition txnServiceHealthEvents ::
  "Runtime \<Rightarrow> 's Store \<Rightarrow> 64 word \<Rightarrow> TxnOp list \<Rightarrow> Event list \<times> err option" where
  "txnServiceHealthEvents rt s idx ops =
     (let nodes = collect_nodes ops in
      case expand_nodes s idx (map_range rt nodes) [] of
        (events, Some e) \<Rightarrow> ([], Some e)
      | (events, None) \<Rightarrow> (sort_Slice rt event_less events, None))"

text \<open>
  The same loop with a record of the calls of \<^verbatim>\<open>nodeServiceHealth\<close>: \<open>calls\<close> lists
  the node names the function is called with, in the order of the calls. The record is
  not part of the program; the result beside it is the one of \<^const>\<open>expand_nodes\<close>
  (lemma \<open>expand_nodes_traced_result\<close>).
\<close>

fun expand_nodes_traced ::
  "'s Store \<Rightarrow> 64 word \<Rightarrow> (string \<times> bool) list \<Rightarrow> Event list \<Rightarrow> string list
    \<Rightarrow> (Event list \<times> err option) \<times> string list" where
  "expand_nodes_traced s idx [] events calls = ((events, None), calls)"
| "expand_nodes_traced s idx ((node, deregister) # rest) events calls =
     (if deregister
      then expand_nodes_traced s idx rest (events @ [serviceHealthDeregisterEvent idx node]) calls
      else
        (case nodeServiceHealth s idx node of
           (evt, Some e) \<Rightarrow> (([], Some e), calls @ [node])
         | (evt, None) \<Rightarrow> expand_nodes_traced s idx rest (events @ evt) (calls @ [node])))"

definition resolver_calls :: "Runtime \<Rightarrow> 's Store \<Rightarrow> 64 word \<Rightarrow> TxnOp list \<Rightarrow> string list" where
  "resolver_calls rt s idx ops =
     snd (expand_nodes_traced s idx (map_range rt (collect_nodes ops)) [] [])"

subsection \<open>Notions of the specification\<close>

text \<open>
  The three kinds of mutation record, as operations with one pointer set.
\<close>

definition NodeMutation :: "string \<Rightarrow> NodeOp \<Rightarrow> TxnOp" where
  "NodeMutation node verb =
     \<lparr>TxnOp_Node = Some \<lparr>TxnNodeOp_Verb = verb, TxnNodeOp_Node = \<lparr>Node_Node = node\<rparr>\<rparr>,
      TxnOp_Service = None, TxnOp_Check = None\<rparr>"

definition ServiceMutation :: "string \<Rightarrow> ServiceOp \<Rightarrow> TxnOp" where
  "ServiceMutation node verb =
     \<lparr>TxnOp_Node = None,
      TxnOp_Service = Some \<lparr>TxnServiceOp_Verb = verb, TxnServiceOp_Node = node\<rparr>,
      TxnOp_Check = None\<rparr>"

definition CheckMutation :: "string \<Rightarrow> CheckOp \<Rightarrow> TxnOp" where
  "CheckMutation node verb =
     \<lparr>TxnOp_Node = None, TxnOp_Service = None,
      TxnOp_Check = Some \<lparr>TxnCheckOp_Verb = verb,
        TxnCheckOp_Check = \<lparr>HealthCheck_Node = node, HealthCheck_CheckID = [], HealthCheck_Status = []\<rparr>\<rparr>\<rparr>"

text \<open>
  The owning node identity of the mutation an operation carries, whether its verb is the
  read, and whether it is a node mutation with one of the two delete verbs.
\<close>

definition op_owner :: "TxnOp \<Rightarrow> string option" where
  "op_owner op =
     (case TxnOp_Node op of
        Some n \<Rightarrow> Some (Node_Node (TxnNodeOp_Node n))
      | None \<Rightarrow>
          (case TxnOp_Service op of
             Some sv \<Rightarrow> Some (TxnServiceOp_Node sv)
           | None \<Rightarrow>
               (case TxnOp_Check op of
                  Some c \<Rightarrow> Some (HealthCheck_Node (TxnCheckOp_Check c))
                | None \<Rightarrow> None)))"

definition op_is_Get :: "TxnOp \<Rightarrow> bool" where
  "op_is_Get op =
     (case TxnOp_Node op of
        Some n \<Rightarrow> TxnNodeOp_Verb n = NodeGet
      | None \<Rightarrow>
          (case TxnOp_Service op of
             Some sv \<Rightarrow> TxnServiceOp_Verb sv = ServiceGet
           | None \<Rightarrow>
               (case TxnOp_Check op of
                  Some c \<Rightarrow> TxnCheckOp_Verb c = CheckGet
                | None \<Rightarrow> False)))"

definition op_is_node_delete :: "TxnOp \<Rightarrow> bool" where
  "op_is_node_delete op =
     (case TxnOp_Node op of
        Some n \<Rightarrow> TxnNodeOp_Verb n = NodeDelete \<or> TxnNodeOp_Verb n = NodeDeleteCAS
      | None \<Rightarrow> False)"

text \<open>The mutations of a batch that target node \<open>N\<close> and are not reads, in batch order.\<close>

definition writes_to :: "string \<Rightarrow> TxnOp list \<Rightarrow> TxnOp list" where
  "writes_to N ops = filter (\<lambda>op. op_owner op = Some N \<and> \<not> op_is_Get op) ops"

text \<open>
  Last write wins, in the words of the specification: no intent for a node no write
  targets, and otherwise \<open>removed\<close> is whether the last write is a node delete.
\<close>

definition last_write_wins :: "TxnOp list \<Rightarrow> string \<Rightarrow> bool option" where
  "last_write_wins ops N =
     (if writes_to N ops = [] then None else Some (op_is_node_delete (last (writes_to N ops))))"

text \<open>An operation with no node, service or check target.\<close>

definition no_target :: "TxnOp \<Rightarrow> bool" where
  "no_target op \<longleftrightarrow> TxnOp_Node op = None \<and> TxnOp_Service op = None \<and> TxnOp_Check op = None"

text \<open>
  The events of one entry of the map: the deregister event of a removed node, the
  resolved events of a touched one.
\<close>

definition expand_entry :: "'s Store \<Rightarrow> 64 word \<Rightarrow> string \<times> bool \<Rightarrow> Event list" where
  "expand_entry s idx entry =
     (if snd entry then [serviceHealthDeregisterEvent idx (fst entry)]
      else fst (nodeServiceHealth s idx (fst entry)))"

text \<open>
  The sort key of an event, the pair the comparison reads, and the lexicographic order
  of such pairs. The empty service name of a bare node is below every other name.
\<close>

definition event_key :: "Event \<Rightarrow> string \<times> string" where
  "event_key e =
     (let a = CheckServiceNode (GetServiceHealth e)
      in (Node_Node (CSN_Node a),
          case CSN_Service a of Some sv \<Rightarrow> NodeService_Service sv | None \<Rightarrow> []))"

definition key_le :: "string \<times> string \<Rightarrow> string \<times> string \<Rightarrow> bool" where
  "key_le k1 k2 \<longleftrightarrow> fst k1 < fst k2 \<or> (fst k1 = fst k2 \<and> snd k1 \<le> snd k2)"

text \<open>
  Stability of an arrangement \<open>out\<close> of \<open>inp\<close>: the events of each key stand in \<open>out\<close>
  in the order they have in \<open>inp\<close>.
\<close>

definition keeps_input_order :: "Event list \<Rightarrow> Event list \<Rightarrow> bool" where
  "keeps_input_order inp out =
     list_all (\<lambda>k. filter (\<lambda>e. event_key e = k) out = filter (\<lambda>e. event_key e = k) inp)
       (map event_key inp)"

subsection \<open>Two sorting procedures\<close>

text \<open>
  Insertion sort, which moves each element of the slice left past the elements that are
  greater; it is stable.
\<close>

fun insert_by :: "('a \<Rightarrow> 'a \<Rightarrow> bool) \<Rightarrow> 'a \<Rightarrow> 'a list \<Rightarrow> 'a list" where
  "insert_by lt x [] = [x]"
| "insert_by lt x (y # ys) = (if lt x y then x # y # ys else y # insert_by lt x ys)"

definition insertion_sort :: "('a \<Rightarrow> 'a \<Rightarrow> bool) \<Rightarrow> 'a list \<Rightarrow> 'a list" where
  "insertion_sort lt xs = foldl (\<lambda>sorted x. insert_by lt x sorted) [] xs"

text \<open>
  Insertion sort after one pass that compares each element with the one six places
  before it and swaps the two when they are out of order, the way a quicksort finishes
  a short slice. It sorts, and it is not stable.
\<close>

definition gap_swap :: "('a \<Rightarrow> 'a \<Rightarrow> bool) \<Rightarrow> 'a list \<Rightarrow> nat \<Rightarrow> 'a list" where
  "gap_swap lt xs i =
     (if lt (xs ! i) (xs ! (i - 6)) then xs[i := xs ! (i - 6), i - 6 := xs ! i] else xs)"

definition gap_sort :: "('a \<Rightarrow> 'a \<Rightarrow> bool) \<Rightarrow> 'a list \<Rightarrow> 'a list" where
  "gap_sort lt xs = insertion_sort lt (foldl (gap_swap lt) xs [6..<length xs])"

text \<open>
  Three runtimes: the first iterates in the order of insertion and sorts by insertion;
  the other two finish with the gap pass, and iterate in the order of insertion and in
  its reverse.
\<close>

definition runtime_insertion :: Runtime where
  "runtime_insertion = \<lparr>map_range = (\<lambda>m. m), sort_Slice = insertion_sort\<rparr>"

definition runtime_gap :: Runtime where
  "runtime_gap = \<lparr>map_range = (\<lambda>m. m), sort_Slice = gap_sort\<rparr>"

definition runtime_gap_rev :: Runtime where
  "runtime_gap_rev = \<lparr>map_range = rev, sort_Slice = gap_sort\<rparr>"

subsection \<open>Sample data\<close>

definition service_view :: "string \<Rightarrow> string \<Rightarrow> string \<Rightarrow> CheckServiceNode" where
  "service_view node sid name =
     \<lparr>CSN_Node = \<lparr>Node_Node = node\<rparr>,
      CSN_Service = Some \<lparr>NodeService_ID = sid, NodeService_Service = name\<rparr>,
      CSN_Checks = []\<rparr>"

text \<open>
  A snapshot in which node \<open>b\<close> runs two instances of the service \<open>web\<close>, node \<open>a\<close> runs
  \<open>svc1\<close>, every other node runs nothing, and the lookup of node \<open>gone\<close> fails.
\<close>

definition sample_store :: "string Store" where
  "sample_store =
     \<lparr>nodeServicesTxn =
        (\<lambda>node. if node = ''gone'' then Inl (Err ''node lookup failed'') else Inr node),
      parseCheckServiceNodes =
        (\<lambda>idx node. Inr
           (if node = ''b''
            then [service_view ''b'' ''web1'' ''web'', service_view ''b'' ''web2'' ''web'']
            else if node = ''a'' then [service_view ''a'' ''svc1'' ''svc1'']
            else []))\<rparr>"

definition node_view :: "string \<Rightarrow> CheckServiceNode" where
  "node_view node = \<lparr>CSN_Node = \<lparr>Node_Node = node\<rparr>, CSN_Service = None, CSN_Checks = []\<rparr>"

text \<open>
  A batch that touches node \<open>b\<close> and removes five other nodes, the node \<open>a\<close> last, and
  the events of its entries in the order of insertion: the two events of \<open>b\<close> have the
  same sort key.
\<close>

definition tie_ops :: "TxnOp list" where
  "tie_ops =
     [ServiceMutation ''b'' ServiceRegister, NodeMutation ''c'' NodeDelete,
      NodeMutation ''d'' NodeDelete, NodeMutation ''e'' NodeDelete,
      NodeMutation ''f'' NodeDelete, NodeMutation ''a'' NodeDelete]"

definition tie_events :: "Event list" where
  "tie_events =
     [registerEvent 7 False (service_view ''b'' ''web1'' ''web''),
      registerEvent 7 False (service_view ''b'' ''web2'' ''web''),
      serviceHealthDeregisterEvent 7 ''c'', serviceHealthDeregisterEvent 7 ''d'',
      serviceHealthDeregisterEvent 7 ''e'', serviceHealthDeregisterEvent 7 ''f'',
      serviceHealthDeregisterEvent 7 ''a'']"

text \<open>The same snapshot, except that the lookup of node \<open>z\<close> fails as well.\<close>

definition sample_store_stale :: "string Store" where
  "sample_store_stale =
     sample_store\<lparr>nodeServicesTxn :=
       (\<lambda>node. if node = ''z'' then Inl (Err ''stale node'') else nodeServicesTxn sample_store node)\<rparr>"

subsection \<open>The shape of a deregister event\<close>

lemma deregister_fields:
  "Topic (serviceHealthDeregisterEvent idx node) = Topic_ServiceHealth"
  "Key (serviceHealthDeregisterEvent idx node) = []"
  "Index (serviceHealthDeregisterEvent idx node) = idx"
  "Op (GetServiceHealth (serviceHealthDeregisterEvent idx node)) = CatalogOp_Deregister"
  "CheckServiceNode (GetServiceHealth (serviceHealthDeregisterEvent idx node)) =
     \<lparr>CSN_Node = \<lparr>Node_Node = node\<rparr>, CSN_Service = None, CSN_Checks = []\<rparr>"
  by (simp_all add: serviceHealthDeregisterEvent_def)

subsection \<open>The two sorting procedures sort\<close>

lemma mset_insert_by: "mset (insert_by lt x ys) = add_mset x (mset ys)"
  by (induction ys) auto

lemma set_insert_by: "set (insert_by lt x ys) = insert x (set ys)"
  by (induction ys) auto

lemma sorted_insert_by:
  assumes "strict_weak_order lt" and "sorted_wrt (\<lambda>a b. \<not> lt b a) ys"
  shows "sorted_wrt (\<lambda>a b. \<not> lt b a) (insert_by lt x ys)"
  using assms(2)
proof (induction ys)
  case Nil
  then show ?case by simp
next
  case (Cons y ys)
  from assms(1) have irr: "\<And>a. \<not> lt a a"
    and tr: "\<And>a b c. lt a b \<Longrightarrow> lt b c \<Longrightarrow> lt a c"
    unfolding strict_weak_order_def by blast+
  show ?case
  proof (cases "lt x y")
    case True
    have "\<not> lt y x" using True irr tr by blast
    moreover have "\<forall>z\<in>set ys. \<not> lt z x" using True Cons.prems tr by auto
    ultimately show ?thesis using True Cons.prems by simp
  next
    case False
    then show ?thesis using Cons by (auto simp: set_insert_by)
  qed
qed

lemma insertion_fold:
  "mset (foldl (\<lambda>sorted x. insert_by lt x sorted) acc xs) = mset acc + mset xs"
  by (induction xs arbitrary: acc) (auto simp: mset_insert_by)

lemma insertion_fold_sorted:
  "strict_weak_order lt \<Longrightarrow> sorted_wrt (\<lambda>a b. \<not> lt b a) acc \<Longrightarrow>
   sorted_wrt (\<lambda>a b. \<not> lt b a) (foldl (\<lambda>sorted x. insert_by lt x sorted) acc xs)"
  by (induction xs arbitrary: acc) (auto simp: sorted_insert_by)

lemma mset_insertion_sort: "mset (insertion_sort lt xs) = mset xs"
  by (simp add: insertion_sort_def insertion_fold)

lemma sorted_insertion_sort:
  "strict_weak_order lt \<Longrightarrow> sorted_wrt (\<lambda>a b. \<not> lt b a) (insertion_sort lt xs)"
  by (simp add: insertion_sort_def insertion_fold_sorted)

lemma gap_swap_keeps:
  "i < length xs \<Longrightarrow> length (gap_swap lt xs i) = length xs \<and> mset (gap_swap lt xs i) = mset xs"
  by (simp add: gap_swap_def mset_swap)

lemma gap_fold_keeps:
  "\<forall>i\<in>set is. i < length xs \<Longrightarrow>
   length (foldl (gap_swap lt) xs is) = length xs \<and> mset (foldl (gap_swap lt) xs is) = mset xs"
  by (induction "is" arbitrary: xs) (auto simp: gap_swap_keeps)

lemma mset_gap_sort: "mset (gap_sort lt xs) = mset xs"
  by (simp add: gap_sort_def mset_insertion_sort gap_fold_keeps)

subsection \<open>The comparison and the sort key\<close>

lemma event_less_key: "event_less a b \<longleftrightarrow> event_key a < event_key b"
  by (auto simp: event_less_def event_key_def Let_def less_prod_def)

lemma key_le_iff: "key_le k1 k2 \<longleftrightarrow> k1 \<le> k2"
  by (auto simp: key_le_def less_eq_prod_def)

text \<open>
  For the events the file builds, the second part of the sort key is the routing key.
\<close>

lemma event_key_routing_key:
  "event_key (registerEvent idx connect n) =
     (Node_Node (CSN_Node n), Key (registerEvent idx connect n))"
  "event_key (serviceHealthDeregisterEvent idx node) =
     (node, Key (serviceHealthDeregisterEvent idx node))"
  by (simp_all add: event_key_def registerEvent_def serviceHealthDeregisterEvent_def
      ToCheckServiceNode_def)

lemma strict_weak_order_event_less: "strict_weak_order event_less"
  unfolding strict_weak_order_def event_less_key by auto

lemma go_runtime_sorts:
  assumes "go_runtime rt"
  shows "mset (sort_Slice rt event_less xs) = mset xs"
    and "sorted (map event_key (sort_Slice rt event_less xs))"
proof -
  from assms strict_weak_order_event_less
  have *: "mset (sort_Slice rt event_less xs) = mset xs \<and>
        sorted_wrt (\<lambda>a b. \<not> event_less b a) (sort_Slice rt event_less xs)"
    unfolding go_runtime_def by blast
  then show "mset (sort_Slice rt event_less xs) = mset xs" by simp
  from * show "sorted (map event_key (sort_Slice rt event_less xs))"
    by (simp add: sorted_map event_less_key not_less)
qed

lemma sorted_keys_unique:
  assumes "sorted (map event_key xs)" "sorted (map event_key ys)"
    and "mset xs = mset ys" and "distinct (map event_key xs)"
  shows "xs = ys"
proof -
  have m: "mset (map event_key xs) = mset (map event_key ys)"
    using assms(3) by simp
  then have d: "distinct (map event_key ys)"
    using assms(4) mset_eq_imp_distinct_iff by blast
  have "set (map event_key xs) = set (map event_key ys)"
    using m mset_eq_setD by blast
  then have e: "map event_key xs = map event_key ys"
    using assms(1,2,4) d sorted_distinct_set_unique by blast
  have "set xs = set ys" using assms(3) mset_eq_setD by blast
  then have "inj_on event_key (set xs \<union> set ys)"
    using assms(4) by (simp add: distinct_map)
  then show ?thesis using e inj_on_map_eq_map by blast
qed

subsection \<open>The second loop\<close>

lemma expand_nodes_ok:
  "\<forall>n. (n, False) \<in> set entries \<longrightarrow> snd (nodeServiceHealth s idx n) = None \<Longrightarrow>
   expand_nodes s idx entries acc = (acc @ concat (map (expand_entry s idx) entries), None)"
proof (induction entries arbitrary: acc)
  case Nil
  then show ?case by simp
next
  case (Cons en entries)
  obtain node d where en: "en = (node, d)" by (cases en)
  show ?case
  proof (cases d)
    case True
    then show ?thesis using Cons en by (simp add: expand_entry_def)
  next
    case False
    then have "snd (nodeServiceHealth s idx node) = None" using Cons.prems en by simp
    then obtain evt where "nodeServiceHealth s idx node = (evt, None)"
      by (cases "nodeServiceHealth s idx node") auto
    then show ?thesis using Cons en False by (simp add: expand_entry_def)
  qed
qed

lemma expand_nodes_fail:
  "(n, False) \<in> set entries \<Longrightarrow> snd (nodeServiceHealth s idx n) \<noteq> None \<Longrightarrow>
   \<exists>m e. (m, False) \<in> set entries \<and> snd (nodeServiceHealth s idx m) = Some e \<and>
      expand_nodes s idx entries acc = ([], Some e)"
proof (induction entries arbitrary: acc)
  case Nil
  then show ?case by simp
next
  case (Cons en entries)
  obtain node d where en: "en = (node, d)" by (cases en)
  show ?case
  proof (cases d)
    case True
    then have "(n, False) \<in> set entries" using Cons.prems en by auto
    from Cons.IH[OF this Cons.prems(2), of "acc @ [serviceHealthDeregisterEvent idx node]"]
    obtain m e where "(m, False) \<in> set entries" "snd (nodeServiceHealth s idx m) = Some e"
      "expand_nodes s idx entries (acc @ [serviceHealthDeregisterEvent idx node]) = ([], Some e)"
      by blast
    then have "(m, False) \<in> set (en # entries) \<and> snd (nodeServiceHealth s idx m) = Some e \<and>
      expand_nodes s idx (en # entries) acc = ([], Some e)"
      using en True by simp
    then show ?thesis by blast
  next
    case False
    show ?thesis
    proof (cases "snd (nodeServiceHealth s idx node)")
      case None
      then obtain evt where ev: "nodeServiceHealth s idx node = (evt, None)"
        by (cases "nodeServiceHealth s idx node") auto
      have "(n, False) \<in> set entries" using Cons.prems en None by auto
      from Cons.IH[OF this Cons.prems(2), of "acc @ evt"]
      obtain m e where "(m, False) \<in> set entries" "snd (nodeServiceHealth s idx m) = Some e"
        "expand_nodes s idx entries (acc @ evt) = ([], Some e)"
        by blast
      then have "(m, False) \<in> set (en # entries) \<and> snd (nodeServiceHealth s idx m) = Some e \<and>
        expand_nodes s idx (en # entries) acc = ([], Some e)"
        using en False ev by simp
      then show ?thesis by blast
    next
      case (Some e)
      then obtain evt where "nodeServiceHealth s idx node = (evt, Some e)"
        by (cases "nodeServiceHealth s idx node") auto
      then have "(node, False) \<in> set (en # entries) \<and> snd (nodeServiceHealth s idx node) = Some e \<and>
        expand_nodes s idx (en # entries) acc = ([], Some e)"
        using en False by simp
      then show ?thesis by blast
    qed
  qed
qed

lemma mset_concat_map_perm:
  "mset xs = mset ys \<Longrightarrow> mset (concat (map f xs)) = mset (concat (map f ys))"
proof -
  assume "mset xs = mset ys"
  then have "image_mset (\<lambda>x. mset (f x)) (mset xs) = image_mset (\<lambda>x. mset (f x)) (mset ys)"
    by simp
  then have "sum_mset (mset (map (\<lambda>x. mset (f x)) xs)) = sum_mset (mset (map (\<lambda>x. mset (f x)) ys))"
    by simp
  then show ?thesis by (simp add: mset_concat sum_mset_sum_list comp_def del: mset_map)
qed

subsection \<open>The runtimes\<close>

lemma go_runtime_insertion: "go_runtime runtime_insertion"
  by (simp add: go_runtime_def runtime_insertion_def mset_insertion_sort sorted_insertion_sort)

lemma sorted_gap_sort:
  "strict_weak_order lt \<Longrightarrow> sorted_wrt (\<lambda>a b. \<not> lt b a) (gap_sort lt xs)"
  by (simp add: gap_sort_def sorted_insertion_sort)

lemma go_runtime_gap: "go_runtime runtime_gap"
  by (simp add: go_runtime_def runtime_gap_def mset_gap_sort sorted_gap_sort)

lemma go_runtime_gap_rev: "go_runtime runtime_gap_rev"
  by (simp add: go_runtime_def runtime_gap_rev_def mset_gap_sort sorted_gap_sort)

lemma go_runtime_range:
  assumes "go_runtime rt"
  shows "mset (map_range rt m) = mset m" and "set (map_range rt m) = set m"
proof -
  show "mset (map_range rt m) = mset m" using assms unfolding go_runtime_def by blast
  then show "set (map_range rt m) = set m" by (rule mset_eq_setD)
qed

subsection \<open>Register events\<close>

lemma toServiceHealth_loop_None:
  "toServiceHealth_loop idx connect nodes None events =
     (events @ map (registerEvent idx connect) nodes, None)"
  by (induction nodes arbitrary: events) (simp_all add: Let_def)

lemma toServiceHealth_loop_Some:
  "toServiceHealth_loop idx connect nodes (Some b) events =
     (events, Some (foldl Append b (map (\<lambda>n. [registerEvent idx connect n]) nodes)))"
  by (induction nodes arbitrary: b) (simp_all add: Let_def)

lemma nodeServiceHealth_cases:
  "(\<exists>e. nodeServiceHealth s idx n = ([], Some e) \<and>
        (nodeServicesTxn s n = Inl e \<or>
         (\<exists>sv. nodeServicesTxn s n = Inr sv \<and> parseCheckServiceNodes s idx sv = Inl e))) \<or>
   (\<exists>sv views. nodeServicesTxn s n = Inr sv \<and> parseCheckServiceNodes s idx sv = Inr views \<and>
        nodeServiceHealth s idx n = (map (registerEvent idx False) views, None))"
  by (auto simp: nodeServiceHealth_def checkServiceNodesToServiceHealth_def
      toServiceHealth_loop_None split: sum.splits)

lemma nodeServiceHealth_register:
  "e \<in> set (fst (nodeServiceHealth s idx n)) \<Longrightarrow>
     Op (GetServiceHealth e) = CatalogOp_Register \<and> Topic e = Topic_ServiceHealth \<and> Index e = idx"
  using nodeServiceHealth_cases[of s idx n] by (auto simp: registerEvent_def)

subsection \<open>The result of a transaction\<close>

lemma txn_ok:
  assumes "go_runtime rt"
    and "\<forall>n. (n, False) \<in> set (collect_nodes ops) \<longrightarrow> snd (nodeServiceHealth s idx n) = None"
  shows "txnServiceHealthEvents rt s idx ops =
     (sort_Slice rt event_less
        (concat (map (expand_entry s idx) (map_range rt (collect_nodes ops)))), None)"
proof -
  have "\<forall>n. (n, False) \<in> set (map_range rt (collect_nodes ops)) \<longrightarrow>
      snd (nodeServiceHealth s idx n) = None"
    using assms by (simp add: go_runtime_range)
  from expand_nodes_ok[OF this, of "[]"] show ?thesis
    by (simp add: txnServiceHealthEvents_def)
qed

lemma txn_ok_mset:
  assumes "go_runtime rt"
    and "\<forall>n. (n, False) \<in> set (collect_nodes ops) \<longrightarrow> snd (nodeServiceHealth s idx n) = None"
  shows "mset (fst (txnServiceHealthEvents rt s idx ops)) =
     mset (concat (map (expand_entry s idx) (collect_nodes ops)))"
  using assms
  by (simp add: txn_ok go_runtime_sorts(1) mset_concat_map_perm[OF go_runtime_range(1)])

lemma txn_fail:
  assumes "go_runtime rt" and "(n, False) \<in> set (collect_nodes ops)"
    and "snd (nodeServiceHealth s idx n) \<noteq> None"
  shows "\<exists>m e. (m, False) \<in> set (collect_nodes ops) \<and>
     snd (nodeServiceHealth s idx m) = Some e \<and>
     txnServiceHealthEvents rt s idx ops = ([], Some e)"
proof -
  have "(n, False) \<in> set (map_range rt (collect_nodes ops))"
    using assms(1,2) by (simp add: go_runtime_range)
  from expand_nodes_fail[OF this assms(3), of "[]"]
  obtain m e where "(m, False) \<in> set (map_range rt (collect_nodes ops))"
    "snd (nodeServiceHealth s idx m) = Some e"
    "expand_nodes s idx (map_range rt (collect_nodes ops)) [] = ([], Some e)"
    by blast
  then have "(m, False) \<in> set (collect_nodes ops) \<and>
     snd (nodeServiceHealth s idx m) = Some e \<and>
     txnServiceHealthEvents rt s idx ops = ([], Some e)"
    using assms(1) by (simp add: go_runtime_range txnServiceHealthEvents_def)
  then show ?thesis by blast
qed

subsection \<open>The first loop\<close>

lemma collect_nodes_snoc: "collect_nodes (ops @ [op]) = collect_op (collect_nodes ops) op"
  by (simp add: collect_nodes_def)

lemma collect_op_map_of:
  "map_of (collect_op nodes op) =
     (case op_owner op of
        None \<Rightarrow> map_of nodes
      | Some N \<Rightarrow> if op_is_Get op then map_of nodes else (map_of nodes)(N \<mapsto> op_is_node_delete op))"
  by (auto simp: collect_op_def op_owner_def op_is_Get_def op_is_node_delete_def update_conv'
      split: option.splits)

lemma collect_op_distinct:
  "distinct (map fst nodes) \<Longrightarrow> distinct (map fst (collect_op nodes op))"
  by (auto simp: collect_op_def distinct_update split: option.splits)

lemma distinct_collect_nodes: "distinct (map fst (collect_nodes ops))"
proof (induction ops rule: rev_induct)
  case Nil
  then show ?case by (simp add: collect_nodes_def)
next
  case (snoc op ops)
  then show ?case unfolding collect_nodes_snoc by (rule collect_op_distinct)
qed

lemma collect_nodes_map_of: "map_of (collect_nodes ops) N = last_write_wins ops N"
proof (induction ops rule: rev_induct)
  case Nil
  then show ?case by (simp add: collect_nodes_def last_write_wins_def writes_to_def)
next
  case (snoc op ops)
  show ?case
  proof (cases "op_owner op = Some N \<and> \<not> op_is_Get op")
    case True
    then show ?thesis
      by (simp add: collect_nodes_snoc collect_op_map_of last_write_wins_def writes_to_def)
  next
    case False
    then have "writes_to N (ops @ [op]) = writes_to N ops"
      by (auto simp: writes_to_def)
    then have "last_write_wins (ops @ [op]) N = last_write_wins ops N"
      by (simp add: last_write_wins_def)
    moreover have "map_of (collect_nodes (ops @ [op])) N = map_of (collect_nodes ops) N"
      using False by (auto simp: collect_nodes_snoc collect_op_map_of split: option.splits)
    ultimately show ?thesis using snoc by simp
  qed
qed

lemma collect_nodes_mem: "(N, v) \<in> set (collect_nodes ops) \<longleftrightarrow> last_write_wins ops N = Some v"
  using distinct_collect_nodes[of ops] collect_nodes_map_of[of ops N] by auto

lemma singleton_list:
  assumes "distinct xs" and "set xs = {x}"
  shows "xs = [x]"
proof -
  have "length xs = 1" using assms distinct_card[of xs] by simp
  then obtain y where "xs = [y]" by (cases xs) auto
  then show ?thesis using assms(2) by simp
qed

subsection \<open>The calls of the resolver\<close>

lemma expand_nodes_traced_result:
  "fst (expand_nodes_traced s idx entries events calls) = expand_nodes s idx entries events"
  by (induction s idx entries events calls rule: expand_nodes_traced.induct)
     (auto split: prod.splits option.splits)

lemma expand_nodes_traced_calls:
  "\<exists>k. snd (expand_nodes_traced s idx entries events calls) =
     calls @ take k (map fst (filter (\<lambda>en. \<not> snd en) entries))"
proof (induction s idx entries events calls rule: expand_nodes_traced.induct)
  case (1 s idx events calls)
  then show ?case by simp
next
  case (2 s idx node deregister rest events calls)
  show ?case
  proof (cases deregister)
    case True
    then show ?thesis using 2(1) by simp
  next
    case False
    obtain evt r where ns: "nodeServiceHealth s idx node = (evt, r)"
      by (cases "nodeServiceHealth s idx node")
    show ?thesis
    proof (cases r)
      case None
      from 2(2)[OF False ns[symmetric] None]
      obtain k where "snd (expand_nodes_traced s idx rest (events @ evt) (calls @ [node])) =
          (calls @ [node]) @ take k (map fst (filter (\<lambda>en. \<not> snd en) rest))"
        by blast
      then have "snd (expand_nodes_traced s idx ((node, deregister) # rest) events calls) =
          calls @ take (Suc k) (map fst (filter (\<lambda>en. \<not> snd en) ((node, deregister) # rest)))"
        using False ns None by simp
      then show ?thesis by blast
    next
      case (Some e)
      have "snd (expand_nodes_traced s idx ((node, deregister) # rest) events calls) =
          calls @ take (Suc 0) (map fst (filter (\<lambda>en. \<not> snd en) ((node, deregister) # rest)))"
        using False ns Some by simp
      then show ?thesis by blast
    qed
  qed
qed

subsection \<open>Runs\<close>

lemma go_runtime_nil:
  assumes "go_runtime rt"
  shows "map_range rt [] = []" and "sort_Slice rt event_less [] = []"
  using go_runtime_range(1)[OF assms, of "[]"] go_runtime_sorts(1)[OF assms, of "[]"]
  by simp_all

lemma go_runtime_single:
  assumes "go_runtime rt"
  shows "map_range rt [x] = [x]" and "sort_Slice rt event_less [e] = [e]"
  using go_runtime_range(1)[OF assms, of "[x]"] go_runtime_sorts(1)[OF assms, of "[e]"]
  by simp_all

lemma collect_nodes_all_Get:
  assumes "\<forall>op\<in>set ops. op_is_Get op"
  shows "collect_nodes ops = []"
proof -
  have "writes_to N ops = []" for N
    using assms by (simp add: writes_to_def)
  then have "map_of (collect_nodes ops) = Map.empty"
    by (simp add: collect_nodes_map_of last_write_wins_def fun_eq_iff)
  then show ?thesis by simp
qed

lemma collect_op_no_target: "no_target op \<Longrightarrow> collect_op nodes op = nodes"
  by (simp add: no_target_def collect_op_def)

lemma txn_cases:
  assumes "go_runtime rt"
  shows "(\<exists>m e. (m, False) \<in> set (collect_nodes ops) \<and> snd (nodeServiceHealth s idx m) = Some e \<and>
            txnServiceHealthEvents rt s idx ops = ([], Some e)) \<or>
         ((\<forall>n. (n, False) \<in> set (collect_nodes ops) \<longrightarrow> snd (nodeServiceHealth s idx n) = None) \<and>
          snd (txnServiceHealthEvents rt s idx ops) = None \<and>
          mset (fst (txnServiceHealthEvents rt s idx ops)) =
            mset (concat (map (expand_entry s idx) (collect_nodes ops))))"
proof (cases "\<forall>n. (n, False) \<in> set (collect_nodes ops) \<longrightarrow> snd (nodeServiceHealth s idx n) = None")
  case True
  then show ?thesis using txn_ok[OF assms True] txn_ok_mset[OF assms True] by simp
next
  case False
  then obtain n where "(n, False) \<in> set (collect_nodes ops)" "snd (nodeServiceHealth s idx n) \<noteq> None"
    by blast
  from txn_fail[OF assms this] show ?thesis by blast
qed

lemma txn_events_mem:
  assumes "go_runtime rt" and "e \<in> set (fst (txnServiceHealthEvents rt s idx ops))"
  shows "\<exists>en\<in>set (collect_nodes ops). e \<in> set (expand_entry s idx en)"
proof -
  from txn_cases[OF assms(1), of ops s idx] assms(2)
  have "mset (fst (txnServiceHealthEvents rt s idx ops)) =
      mset (concat (map (expand_entry s idx) (collect_nodes ops)))"
    by auto
  then have "set (fst (txnServiceHealthEvents rt s idx ops)) =
      set (concat (map (expand_entry s idx) (collect_nodes ops)))"
    by (rule mset_eq_setD)
  then show ?thesis using assms(2) by auto
qed

lemma expand_entry_deregister:
  assumes "e \<in> set (expand_entry s idx en)" and "Op (GetServiceHealth e) = CatalogOp_Deregister"
  shows "snd en \<and> e = serviceHealthDeregisterEvent idx (fst en)"
proof (cases "snd en")
  case True
  then show ?thesis using assms(1) by (simp add: expand_entry_def)
next
  case False
  then have "e \<in> set (fst (nodeServiceHealth s idx (fst en)))"
    using assms(1) by (simp add: expand_entry_def)
  from nodeServiceHealth_register[OF this] assms(2) show ?thesis by simp
qed

lemma resolver_calls_take:
  "\<exists>k. resolver_calls rt s idx ops =
     take k (map fst (filter (\<lambda>en. \<not> snd en) (map_range rt (collect_nodes ops))))"
  using expand_nodes_traced_calls[of s idx "map_range rt (collect_nodes ops)" "[]" "[]"]
  by (simp add: resolver_calls_def)

lemma distinct_range_keys:
  assumes "go_runtime rt"
  shows "distinct (map fst (map_range rt (collect_nodes ops)))"
proof -
  have "mset (map fst (map_range rt (collect_nodes ops))) = mset (map fst (collect_nodes ops))"
    using go_runtime_range(1)[OF assms] by simp
  then show ?thesis using distinct_collect_nodes mset_eq_imp_distinct_iff by blast
qed

lemma resolver_calls_distinct:
  assumes "go_runtime rt"
  shows "distinct (resolver_calls rt s idx ops)"
proof -
  obtain k where k: "resolver_calls rt s idx ops =
     take k (map fst (filter (\<lambda>en. \<not> snd en) (map_range rt (collect_nodes ops))))"
    using resolver_calls_take by blast
  have "distinct (map fst (filter (\<lambda>en. \<not> snd en) (map_range rt (collect_nodes ops))))"
    using distinct_range_keys[OF assms] by (rule distinct_map_filter)
  then show ?thesis unfolding k by (rule distinct_take)
qed

lemma resolver_calls_touched:
  assumes "go_runtime rt" and "N \<in> set (resolver_calls rt s idx ops)"
  shows "(N, False) \<in> set (collect_nodes ops)"
proof -
  obtain k where k: "resolver_calls rt s idx ops =
     take k (map fst (filter (\<lambda>en. \<not> snd en) (map_range rt (collect_nodes ops))))"
    using resolver_calls_take by blast
  from assms(2) have "N \<in> set (map fst (filter (\<lambda>en. \<not> snd en) (map_range rt (collect_nodes ops))))"
    unfolding k by (rule in_set_takeD)
  then show ?thesis using go_runtime_range(2)[OF assms(1)] by auto
qed

lemma collect_nodes_one_intent:
  "(N, v) \<in> set (collect_nodes ops) \<Longrightarrow> (N, w) \<in> set (collect_nodes ops) \<Longrightarrow> v = w"
  by (simp add: collect_nodes_mem)

lemma distinct_count_list: "distinct xs \<Longrightarrow> count_list xs a \<le> 1"
  by (induction xs) (auto simp: count_list_0_iff)

lemma deregister_in_expand_entry:
  "serviceHealthDeregisterEvent idx N \<in> set (expand_entry s idx en) \<longleftrightarrow> en = (N, True)"
proof
  assume a: "serviceHealthDeregisterEvent idx N \<in> set (expand_entry s idx en)"
  from expand_entry_deregister[OF a] deregister_fields(4)
  have "snd en" "serviceHealthDeregisterEvent idx N = serviceHealthDeregisterEvent idx (fst en)"
    by simp_all
  then show "en = (N, True)"
    by (cases en) (simp add: serviceHealthDeregisterEvent_def)
next
  assume "en = (N, True)"
  then show "serviceHealthDeregisterEvent idx N \<in> set (expand_entry s idx en)"
    by (simp add: expand_entry_def)
qed

lemma count_concat_none:
  "\<forall>x\<in>set xs. a \<notin> set (f x) \<Longrightarrow> count_list (concat (map f xs)) a = 0"
  by (induction xs) (auto simp: count_list_0_iff)

lemma count_list_append: "count_list (xs @ ys) a = count_list xs a + count_list ys a"
  by (induction xs) auto

lemma count_deregister_entries:
  assumes "distinct (map fst entries)" and "(N, True) \<in> set entries"
  shows "count_list (concat (map (expand_entry s idx) entries)) (serviceHealthDeregisterEvent idx N) = 1"
proof -
  from split_list[OF assms(2)] obtain xs ys where sp: "entries = xs @ (N, True) # ys" by blast
  have "(N, True) \<notin> set xs" "(N, True) \<notin> set ys"
    using assms(1) unfolding sp by (auto simp: image_iff)
  then have "\<forall>x\<in>set xs. serviceHealthDeregisterEvent idx N \<notin> set (expand_entry s idx x)"
    "\<forall>x\<in>set ys. serviceHealthDeregisterEvent idx N \<notin> set (expand_entry s idx x)"
    by (auto simp: deregister_in_expand_entry)
  then have "count_list (concat (map (expand_entry s idx) xs)) (serviceHealthDeregisterEvent idx N) = 0"
    "count_list (concat (map (expand_entry s idx) ys)) (serviceHealthDeregisterEvent idx N) = 0"
    by (simp_all add: count_concat_none)
  then show ?thesis unfolding sp by (simp add: count_list_append expand_entry_def)
qed

lemma expand_nodes_cong:
  "\<forall>M. (M, False) \<in> set entries \<longrightarrow> nodeServiceHealth s' idx M = nodeServiceHealth s idx M \<Longrightarrow>
   expand_nodes s' idx entries acc = expand_nodes s idx entries acc"
proof (induction entries arbitrary: acc)
  case Nil
  then show ?case by simp
next
  case (Cons en entries)
  obtain node d where en: "en = (node, d)" by (cases en)
  show ?case using Cons en by (cases d) (auto split: prod.splits option.splits)
qed

lemma collect_nodes_single_owner:
  assumes "ops \<noteq> []" and "\<forall>op\<in>set ops. op_owner op = Some B \<and> \<not> op_is_Get op"
  shows "collect_nodes ops = [(B, op_is_node_delete (last ops))]"
proof -
  have w: "writes_to B ops = ops" using assms(2) by (simp add: writes_to_def)
  have n: "writes_to N ops = []" if "N \<noteq> B" for N
    using assms(2) that by (auto simp: writes_to_def)
  have "set (collect_nodes ops) = {(B, op_is_node_delete (last ops))}"
  proof (rule set_eqI)
    fix en :: "string \<times> bool"
    obtain N v where en: "en = (N, v)" by (cases en)
    show "en \<in> set (collect_nodes ops) \<longleftrightarrow> en \<in> {(B, op_is_node_delete (last ops))}"
    proof (cases "N = B")
      case True
      then show ?thesis using w assms(1) by (auto simp: en collect_nodes_mem last_write_wins_def)
    next
      case False
      then show ?thesis using n[OF False] by (simp add: en collect_nodes_mem last_write_wins_def)
    qed
  qed
  moreover have "distinct (collect_nodes ops)"
    using distinct_collect_nodes[of ops] by (simp add: distinct_map)
  ultimately show ?thesis by (rule singleton_list[rotated])
qed

lemma txn_single_touched:
  assumes "go_runtime rt" and "collect_nodes ops = [(B, False)]"
  shows "resolver_calls rt s idx ops = [B]"
    and "txnServiceHealthEvents rt s idx ops =
      (case nodeServiceHealth s idx B of
         (evt, None) \<Rightarrow> (sort_Slice rt event_less evt, None)
       | (evt, Some e) \<Rightarrow> ([], Some e))"
  using assms(2)
  by (auto simp: resolver_calls_def txnServiceHealthEvents_def go_runtime_single[OF assms(1)]
      split: prod.splits option.splits)

lemma sorted_wrt_key_le:
  "sorted_wrt (\<lambda>a b. key_le (event_key a) (event_key b)) xs \<longleftrightarrow> sorted (map event_key xs)"
  by (simp add: sorted_map key_le_iff)

lemma txn_sorted:
  assumes "go_runtime rt"
  shows "sorted (map event_key (fst (txnServiceHealthEvents rt s idx ops)))"
proof (cases "\<forall>n. (n, False) \<in> set (collect_nodes ops) \<longrightarrow> snd (nodeServiceHealth s idx n) = None")
  case True
  show ?thesis by (simp add: txn_ok[OF assms True] go_runtime_sorts(2)[OF assms])
next
  case False
  then obtain n where "(n, False) \<in> set (collect_nodes ops)" "snd (nodeServiceHealth s idx n) \<noteq> None"
    by blast
  from txn_fail[OF assms this] show ?thesis by auto
qed

lemma txn_two_runs:
  assumes "go_runtime rt1" and "go_runtime rt2"
  shows "(snd (txnServiceHealthEvents rt1 s idx ops) = None \<longleftrightarrow>
          snd (txnServiceHealthEvents rt2 s idx ops) = None) \<and>
         mset (fst (txnServiceHealthEvents rt1 s idx ops)) =
         mset (fst (txnServiceHealthEvents rt2 s idx ops))"
proof (cases "\<forall>n. (n, False) \<in> set (collect_nodes ops) \<longrightarrow> snd (nodeServiceHealth s idx n) = None")
  case True
  show ?thesis
    using txn_ok[OF assms(1) True] txn_ok[OF assms(2) True]
      txn_ok_mset[OF assms(1) True] txn_ok_mset[OF assms(2) True] by simp
next
  case False
  then obtain n where n: "(n, False) \<in> set (collect_nodes ops)"
    "snd (nodeServiceHealth s idx n) \<noteq> None"
    by blast
  from txn_fail[OF assms(1) n] txn_fail[OF assms(2) n] show ?thesis by auto
qed

lemma sorted_insertion_keys: "sorted (map event_key (insertion_sort event_less xs))"
  using sorted_insertion_sort[OF strict_weak_order_event_less, of xs]
  by (simp add: sorted_map event_less_key not_less)

lemmas run_defs =
  txnServiceHealthEvents_def resolver_calls_def collect_nodes_def collect_op_def
  NodeMutation_def ServiceMutation_def CheckMutation_def
  nodeServiceHealth_def checkServiceNodesToServiceHealth_def registerEvent_def
  serviceHealthDeregisterEvent_def ToCheckServiceNode_def
  sample_store_def sample_store_stale_def service_view_def node_view_def
  tie_ops_def tie_events_def
  runtime_insertion_def runtime_gap_def runtime_gap_rev_def
  insertion_sort_def gap_sort_def gap_swap_def event_less_def Let_def

section \<open>The claims\<close>

text \<open>
  C1. The intent the first loop leaves for a node is that of the last write of the batch
  that targets the node: none when no write targets it, removed exactly when that write
  is a node mutation with one of the two delete verbs. A service or check write gives the
  node the intent not removed, whatever came before. The batch of a service register
  and then a node delete, both on node \<open>A\<close>, returns the one deregister event of \<open>A\<close>
  and calls the resolver for no node; the reversed batch calls the resolver for \<open>A\<close> and
  returns its sorted register events, or its error.
\<close>

theorem last_write_wins_reduction:
  assumes "go_runtime rt"
  shows
   "map_of (collect_nodes ops) N = last_write_wins ops N \<and>
    ((N, True) \<in> set (collect_nodes ops) \<longleftrightarrow>
       writes_to N ops \<noteq> [] \<and> op_is_node_delete (last (writes_to N ops))) \<and>
    (TxnOp_Node op = None \<and> op_owner op = Some N \<and> \<not> op_is_Get op \<longrightarrow>
       (N, False) \<in> set (collect_nodes (ops @ [op]))) \<and>
    txnServiceHealthEvents rt s idx
       [ServiceMutation A ServiceRegister, NodeMutation A NodeDelete] =
       ([serviceHealthDeregisterEvent idx A], None) \<and>
    resolver_calls rt s idx [ServiceMutation A ServiceRegister, NodeMutation A NodeDelete] = [] \<and>
    txnServiceHealthEvents rt s idx
       [NodeMutation A NodeDelete, ServiceMutation A ServiceRegister] =
       (case nodeServiceHealth s idx A of
          (evt, None) \<Rightarrow> (sort_Slice rt event_less evt, None)
        | (evt, Some e) \<Rightarrow> ([], Some e)) \<and>
    resolver_calls rt s idx [NodeMutation A NodeDelete, ServiceMutation A ServiceRegister] = [A] \<and>
    (\<forall>e\<in>set (fst (txnServiceHealthEvents rt s idx
         [NodeMutation A NodeDelete, ServiceMutation A ServiceRegister])).
       Op (GetServiceHealth e) = CatalogOp_Register)"
proof (intro conjI impI ballI)
  show "map_of (collect_nodes ops) N = last_write_wins ops N"
    by (rule collect_nodes_map_of)
  show "(N, True) \<in> set (collect_nodes ops) \<longleftrightarrow>
       writes_to N ops \<noteq> [] \<and> op_is_node_delete (last (writes_to N ops))"
    by (auto simp: collect_nodes_mem last_write_wins_def)
  show "(N, False) \<in> set (collect_nodes (ops @ [op]))"
    if "TxnOp_Node op = None \<and> op_owner op = Some N \<and> \<not> op_is_Get op"
    using that
    by (simp add: collect_nodes_mem last_write_wins_def writes_to_def op_is_node_delete_def)
  have c1: "collect_nodes [ServiceMutation A ServiceRegister, NodeMutation A NodeDelete] = [(A, True)]"
    by (simp add: collect_nodes_def collect_op_def ServiceMutation_def NodeMutation_def)
  have c2: "collect_nodes [NodeMutation A NodeDelete, ServiceMutation A ServiceRegister] = [(A, False)]"
    by (simp add: collect_nodes_def collect_op_def ServiceMutation_def NodeMutation_def)
  show "txnServiceHealthEvents rt s idx
       [ServiceMutation A ServiceRegister, NodeMutation A NodeDelete] =
       ([serviceHealthDeregisterEvent idx A], None)"
    by (simp add: txnServiceHealthEvents_def c1 go_runtime_single[OF assms])
  show "resolver_calls rt s idx [ServiceMutation A ServiceRegister, NodeMutation A NodeDelete] = []"
    by (simp add: resolver_calls_def c1 go_runtime_single[OF assms])
  show r: "txnServiceHealthEvents rt s idx
       [NodeMutation A NodeDelete, ServiceMutation A ServiceRegister] =
       (case nodeServiceHealth s idx A of
          (evt, None) \<Rightarrow> (sort_Slice rt event_less evt, None)
        | (evt, Some e) \<Rightarrow> ([], Some e))"
    by (rule txn_single_touched(2)[OF assms c2])
  show "resolver_calls rt s idx [NodeMutation A NodeDelete, ServiceMutation A ServiceRegister] = [A]"
    by (rule txn_single_touched(1)[OF assms c2])
  fix e
  assume e: "e \<in> set (fst (txnServiceHealthEvents rt s idx
         [NodeMutation A NodeDelete, ServiceMutation A ServiceRegister]))"
  from txn_events_mem[OF assms e] have "e \<in> set (expand_entry s idx (A, False))"
    by (simp add: c2)
  then have "e \<in> set (fst (nodeServiceHealth s idx A))" by (simp add: expand_entry_def)
  from nodeServiceHealth_register[OF this]
  show "Op (GetServiceHealth e) = CatalogOp_Register" by blast
qed

theorem last_write_wins_reduction_witness:
  "go_runtime runtime_insertion \<and>
   txnServiceHealthEvents runtime_insertion sample_store 7
     [ServiceMutation ''a'' ServiceRegister, NodeMutation ''a'' NodeDelete] =
     ([serviceHealthDeregisterEvent 7 ''a''], None) \<and>
   txnServiceHealthEvents runtime_insertion sample_store 7
     [NodeMutation ''a'' NodeDelete, ServiceMutation ''a'' ServiceRegister] =
     ([registerEvent 7 False (service_view ''a'' ''svc1'' ''svc1'')], None) \<and>
   Op (GetServiceHealth (registerEvent 7 False (service_view ''a'' ''svc1'' ''svc1''))) =
     CatalogOp_Register \<and>
   TxnOp_Node (CheckMutation ''a'' CheckDelete) = None \<and>
   op_owner (CheckMutation ''a'' CheckDelete) = Some ''a'' \<and>
   \<not> op_is_Get (CheckMutation ''a'' CheckDelete) \<and>
   collect_nodes ([NodeMutation ''a'' NodeDelete] @ [CheckMutation ''a'' CheckDelete]) =
     [(''a'', False)] \<and>
   last_write_wins [NodeMutation ''a'' NodeRegister, NodeMutation ''a'' NodeDeleteCAS,
      NodeMutation ''b'' NodeGet] ''a'' = Some True"
  using last_write_wins_reduction[OF go_runtime_insertion, of
      "[NodeMutation ''a'' NodeDelete]" "''a''" "CheckMutation ''a'' CheckDelete"
      sample_store 7 "''a''"]
    last_write_wins_reduction[OF go_runtime_insertion, of
      "[NodeMutation ''a'' NodeRegister, NodeMutation ''a'' NodeDeleteCAS,
        NodeMutation ''b'' NodeGet]" "''a''" "CheckMutation ''a'' CheckDelete"
      sample_store 7 "''a''"]
    go_runtime_insertion
  by (simp add: run_defs op_owner_def op_is_Get_def)

text \<open>
  C2, as the code has it. The sort returns the collected events rearranged in ascending
  lexicographic order of node name and service name, the empty service name of a bare
  node first. The order it leaves among events of the same node and service name is not
  determined; when no two events share both, the result is the one sorted arrangement.
  Events of the nodes \<open>a\<close> and \<open>z\<close> with the service names empty and \<open>svc1\<close> come
  out as \<open>a\<close> bare, \<open>a\<close> with \<open>svc1\<close>, \<open>z\<close> bare.
\<close>

theorem orderer_sorts:
  assumes "go_runtime rt"
  shows
   "mset (sort_Slice rt event_less events) = mset events \<and>
    sorted_wrt (\<lambda>a b. key_le (event_key a) (event_key b)) (sort_Slice rt event_less events) \<and>
    key_le (node, []) (node, svc) \<and>
    (distinct (map event_key events) \<longrightarrow>
       sort_Slice rt event_less events = insertion_sort event_less events) \<and>
    (event_key ea = (''a'', []) \<and> event_key eb = (''a'', ''svc1'') \<and>
     event_key ez = (''z'', []) \<and> mset events = {#ea, eb, ez#} \<longrightarrow>
       sort_Slice rt event_less events = [ea, eb, ez])"
proof (intro conjI impI)
  show m: "mset (sort_Slice rt event_less events) = mset events"
    by (rule go_runtime_sorts(1)[OF assms])
  have s: "sorted (map event_key (sort_Slice rt event_less events))"
    by (rule go_runtime_sorts(2)[OF assms])
  then show "sorted_wrt (\<lambda>a b. key_le (event_key a) (event_key b)) (sort_Slice rt event_less events)"
    by (simp add: sorted_wrt_key_le)
  show "key_le (node, []) (node, svc)" by (simp add: key_le_def)
  show "sort_Slice rt event_less events = insertion_sort event_less events"
    if "distinct (map event_key events)"
  proof (rule sorted_keys_unique[symmetric])
    show "sorted (map event_key (insertion_sort event_less events))"
      by (rule sorted_insertion_keys)
    show "sorted (map event_key (sort_Slice rt event_less events))" by (rule s)
    show "mset (insertion_sort event_less events) = mset (sort_Slice rt event_less events)"
      by (simp add: m mset_insertion_sort)
    have "mset (map event_key (insertion_sort event_less events)) = mset (map event_key events)"
      by (simp add: mset_insertion_sort)
    then show "distinct (map event_key (insertion_sort event_less events))"
      using that mset_eq_imp_distinct_iff by blast
  qed
  show "sort_Slice rt event_less events = [ea, eb, ez]"
    if h: "event_key ea = (''a'', []) \<and> event_key eb = (''a'', ''svc1'') \<and>
     event_key ez = (''z'', []) \<and> mset events = {#ea, eb, ez#}"
  proof (rule sorted_keys_unique[symmetric])
    show "sorted (map event_key [ea, eb, ez])" using h by simp
    show "sorted (map event_key (sort_Slice rt event_less events))" by (rule s)
    show "mset [ea, eb, ez] = mset (sort_Slice rt event_less events)" using h m by simp
    show "distinct (map event_key [ea, eb, ez])" using h by simp
  qed
qed

theorem orderer_sorts_witness:
  "go_runtime runtime_gap \<and>
   event_key (registerEvent 7 False (node_view ''a'')) = (''a'', []) \<and>
   event_key (registerEvent 7 False (service_view ''a'' ''svc1'' ''svc1'')) = (''a'', ''svc1'') \<and>
   event_key (registerEvent 7 False (node_view ''z'')) = (''z'', []) \<and>
   distinct (map event_key
     [registerEvent 7 False (node_view ''z''),
      registerEvent 7 False (service_view ''a'' ''svc1'' ''svc1''),
      registerEvent 7 False (node_view ''a'')]) \<and>
   sort_Slice runtime_gap event_less
     [registerEvent 7 False (node_view ''z''),
      registerEvent 7 False (service_view ''a'' ''svc1'' ''svc1''),
      registerEvent 7 False (node_view ''a'')] =
     [registerEvent 7 False (node_view ''a''),
      registerEvent 7 False (service_view ''a'' ''svc1'' ''svc1''),
      registerEvent 7 False (node_view ''z'')]"
proof -
  have k: "event_key (registerEvent 7 False (node_view ''a'')) = (''a'', [])"
    "event_key (registerEvent 7 False (service_view ''a'' ''svc1'' ''svc1'')) = (''a'', ''svc1'')"
    "event_key (registerEvent 7 False (node_view ''z'')) = (''z'', [])"
    by (simp_all add: event_key_def run_defs)
  have m: "mset [registerEvent 7 False (node_view ''z''),
      registerEvent 7 False (service_view ''a'' ''svc1'' ''svc1''),
      registerEvent 7 False (node_view ''a'')] =
    {#registerEvent 7 False (node_view ''a''),
      registerEvent 7 False (service_view ''a'' ''svc1'' ''svc1''),
      registerEvent 7 False (node_view ''z'')#}"
    by simp
  have d: "distinct (map event_key
     [registerEvent 7 False (node_view ''z''),
      registerEvent 7 False (service_view ''a'' ''svc1'' ''svc1''),
      registerEvent 7 False (node_view ''a'')])"
    by (simp add: k)
  from orderer_sorts[OF go_runtime_gap, of
      "[registerEvent 7 False (node_view ''z''),
        registerEvent 7 False (service_view ''a'' ''svc1'' ''svc1''),
        registerEvent 7 False (node_view ''a'')]"
      _ _ "registerEvent 7 False (node_view ''a'')"
      "registerEvent 7 False (service_view ''a'' ''svc1'' ''svc1'')"
      "registerEvent 7 False (node_view ''z'')"] k m
  have "sort_Slice runtime_gap event_less
     [registerEvent 7 False (node_view ''z''),
      registerEvent 7 False (service_view ''a'' ''svc1'' ''svc1''),
      registerEvent 7 False (node_view ''a'')] =
     [registerEvent 7 False (node_view ''a''),
      registerEvent 7 False (service_view ''a'' ''svc1'' ''svc1''),
      registerEvent 7 False (node_view ''z'')]"
    by blast
  then show ?thesis using go_runtime_gap k d by blast
qed

text \<open>
  The claim C2 as stated asks for a stable sort. On \<open>tie_events\<close> the sort that
  finishes with the gap pass returns the two events of node \<open>b\<close>, which have the same
  key, in the reverse of their input order.
\<close>

theorem orderer_stability_counterexample:
  "go_runtime runtime_gap \<and>
   event_key (registerEvent 7 False (service_view ''b'' ''web1'' ''web'')) =
   event_key (registerEvent 7 False (service_view ''b'' ''web2'' ''web'')) \<and>
   sort_Slice runtime_gap event_less tie_events =
     [serviceHealthDeregisterEvent 7 ''a'',
      registerEvent 7 False (service_view ''b'' ''web2'' ''web''),
      registerEvent 7 False (service_view ''b'' ''web1'' ''web''),
      serviceHealthDeregisterEvent 7 ''c'', serviceHealthDeregisterEvent 7 ''d'',
      serviceHealthDeregisterEvent 7 ''e'', serviceHealthDeregisterEvent 7 ''f''] \<and>
   \<not> keeps_input_order tie_events (sort_Slice runtime_gap event_less tie_events)"
proof -
  have a: "sort_Slice runtime_gap event_less tie_events =
     [serviceHealthDeregisterEvent 7 ''a'',
      registerEvent 7 False (service_view ''b'' ''web2'' ''web''),
      registerEvent 7 False (service_view ''b'' ''web1'' ''web''),
      serviceHealthDeregisterEvent 7 ''c'', serviceHealthDeregisterEvent 7 ''d'',
      serviceHealthDeregisterEvent 7 ''e'', serviceHealthDeregisterEvent 7 ''f'']"
    by (simp add: run_defs)
  have b: "event_key (registerEvent 7 False (service_view ''b'' ''web1'' ''web'')) =
      event_key (registerEvent 7 False (service_view ''b'' ''web2'' ''web''))"
    by (simp add: event_key_def run_defs)
  have c: "\<not> keeps_input_order tie_events
     [serviceHealthDeregisterEvent 7 ''a'',
      registerEvent 7 False (service_view ''b'' ''web2'' ''web''),
      registerEvent 7 False (service_view ''b'' ''web1'' ''web''),
      serviceHealthDeregisterEvent 7 ''c'', serviceHealthDeregisterEvent 7 ''d'',
      serviceHealthDeregisterEvent 7 ''e'', serviceHealthDeregisterEvent 7 ''f'']"
    by (simp add: keeps_input_order_def event_key_def run_defs)
  show ?thesis using go_runtime_gap a b c by simp
qed

text \<open>
  C3. When \<^verbatim>\<open>nodeServiceHealth\<close> returns an error for a node of the batch whose intent
  is not removed, the transaction returns the error of one such node, as the store gave
  it, and no events. When it returns no error for any of them, the transaction returns no
  error and the events of every entry of the map.
\<close>

theorem resolver_failure_aborts:
  assumes "go_runtime rt"
  shows
   "((\<exists>n. (n, False) \<in> set (collect_nodes ops) \<and> snd (nodeServiceHealth s idx n) \<noteq> None) \<longrightarrow>
       (\<exists>m e. (m, False) \<in> set (collect_nodes ops) \<and>
          nodeServiceHealth s idx m = ([], Some e) \<and>
          (nodeServicesTxn s m = Inl e \<or>
           (\<exists>sv. nodeServicesTxn s m = Inr sv \<and> parseCheckServiceNodes s idx sv = Inl e)) \<and>
          txnServiceHealthEvents rt s idx ops = ([], Some e))) \<and>
    ((\<forall>n. (n, False) \<in> set (collect_nodes ops) \<longrightarrow> snd (nodeServiceHealth s idx n) = None) \<longrightarrow>
       snd (txnServiceHealthEvents rt s idx ops) = None \<and>
       mset (fst (txnServiceHealthEvents rt s idx ops)) =
         mset (concat (map (expand_entry s idx) (collect_nodes ops))))"
proof (intro conjI impI)
  assume "\<exists>n. (n, False) \<in> set (collect_nodes ops) \<and> snd (nodeServiceHealth s idx n) \<noteq> None"
  then obtain n where "(n, False) \<in> set (collect_nodes ops)"
    "snd (nodeServiceHealth s idx n) \<noteq> None" by blast
  from txn_fail[OF assms this] obtain m e where m: "(m, False) \<in> set (collect_nodes ops)"
    "snd (nodeServiceHealth s idx m) = Some e"
    "txnServiceHealthEvents rt s idx ops = ([], Some e)" by blast
  from nodeServiceHealth_cases[of s idx m] m(2)
  have "nodeServiceHealth s idx m = ([], Some e) \<and>
      (nodeServicesTxn s m = Inl e \<or>
       (\<exists>sv. nodeServicesTxn s m = Inr sv \<and> parseCheckServiceNodes s idx sv = Inl e))"
    by auto
  with m show "\<exists>m e. (m, False) \<in> set (collect_nodes ops) \<and>
          nodeServiceHealth s idx m = ([], Some e) \<and>
          (nodeServicesTxn s m = Inl e \<or>
           (\<exists>sv. nodeServicesTxn s m = Inr sv \<and> parseCheckServiceNodes s idx sv = Inl e)) \<and>
          txnServiceHealthEvents rt s idx ops = ([], Some e)"
    by blast
next
  assume ok: "\<forall>n. (n, False) \<in> set (collect_nodes ops) \<longrightarrow> snd (nodeServiceHealth s idx n) = None"
  show "snd (txnServiceHealthEvents rt s idx ops) = None"
    by (simp add: txn_ok[OF assms ok])
  show "mset (fst (txnServiceHealthEvents rt s idx ops)) =
         mset (concat (map (expand_entry s idx) (collect_nodes ops)))"
    by (rule txn_ok_mset[OF assms ok])
qed

theorem resolver_failure_aborts_witness:
  "go_runtime runtime_insertion \<and>
   (''gone'', False) \<in> set (collect_nodes
      [ServiceMutation ''a'' ServiceRegister, NodeMutation ''z'' NodeDelete,
       CheckMutation ''gone'' CheckRegister]) \<and>
   snd (nodeServiceHealth sample_store 7 ''gone'') \<noteq> None \<and>
   txnServiceHealthEvents runtime_insertion sample_store 7
      [ServiceMutation ''a'' ServiceRegister, NodeMutation ''z'' NodeDelete,
       CheckMutation ''gone'' CheckRegister] = ([], Some (Err ''node lookup failed'')) \<and>
   collect_nodes [ServiceMutation ''a'' ServiceRegister, NodeMutation ''z'' NodeDelete] =
      [(''a'', False), (''z'', True)] \<and>
   snd (nodeServiceHealth sample_store 7 ''a'') = None \<and>
   txnServiceHealthEvents runtime_insertion sample_store 7
      [ServiceMutation ''a'' ServiceRegister, NodeMutation ''z'' NodeDelete] =
      ([registerEvent 7 False (service_view ''a'' ''svc1'' ''svc1''),
        serviceHealthDeregisterEvent 7 ''z''], None)"
  using resolver_failure_aborts[OF go_runtime_insertion, of
      "[ServiceMutation ''a'' ServiceRegister, NodeMutation ''z'' NodeDelete,
        CheckMutation ''gone'' CheckRegister]" sample_store 7]
    resolver_failure_aborts[OF go_runtime_insertion, of
      "[ServiceMutation ''a'' ServiceRegister, NodeMutation ''z'' NodeDelete]" sample_store 7]
    go_runtime_insertion
  by (simp add: run_defs)

text \<open>
  C4, as the code has it. Two runs on the same snapshot and batch, whatever the order of
  the map iteration and the arrangement of ties by the sort, agree on whether an error is
  returned, return the same events as a multiset, each run sorted by node and service
  name, and return the same sequence whenever no two events have the same node and
  service name.
\<close>

theorem deterministic_up_to_ties:
  assumes "go_runtime rt1" and "go_runtime rt2"
  shows
   "(snd (txnServiceHealthEvents rt1 s idx ops) = None \<longleftrightarrow>
       snd (txnServiceHealthEvents rt2 s idx ops) = None) \<and>
    mset (fst (txnServiceHealthEvents rt1 s idx ops)) =
      mset (fst (txnServiceHealthEvents rt2 s idx ops)) \<and>
    sorted_wrt (\<lambda>a b. key_le (event_key a) (event_key b))
      (fst (txnServiceHealthEvents rt1 s idx ops)) \<and>
    sorted_wrt (\<lambda>a b. key_le (event_key a) (event_key b))
      (fst (txnServiceHealthEvents rt2 s idx ops)) \<and>
    (distinct (map event_key (fst (txnServiceHealthEvents rt1 s idx ops))) \<longrightarrow>
       fst (txnServiceHealthEvents rt1 s idx ops) = fst (txnServiceHealthEvents rt2 s idx ops))"
proof -
  note two = txn_two_runs[OF assms, of s idx ops]
  have s1: "sorted (map event_key (fst (txnServiceHealthEvents rt1 s idx ops)))"
    by (rule txn_sorted[OF assms(1)])
  have s2: "sorted (map event_key (fst (txnServiceHealthEvents rt2 s idx ops)))"
    by (rule txn_sorted[OF assms(2)])
  have "fst (txnServiceHealthEvents rt1 s idx ops) = fst (txnServiceHealthEvents rt2 s idx ops)"
    if "distinct (map event_key (fst (txnServiceHealthEvents rt1 s idx ops)))"
    using s1 s2 two that by (intro sorted_keys_unique) simp_all
  then show ?thesis using two s1 s2 by (simp add: sorted_wrt_key_le)
qed

theorem deterministic_up_to_ties_witness:
  "go_runtime runtime_gap \<and> go_runtime runtime_gap_rev \<and>
   distinct (map event_key (fst (txnServiceHealthEvents runtime_gap sample_store 7
      [NodeMutation ''z'' NodeDelete, ServiceMutation ''a'' ServiceRegister,
       CheckMutation ''c'' CheckDelete, NodeMutation ''d'' NodeDeleteCAS]))) \<and>
   txnServiceHealthEvents runtime_gap sample_store 7
      [NodeMutation ''z'' NodeDelete, ServiceMutation ''a'' ServiceRegister,
       CheckMutation ''c'' CheckDelete, NodeMutation ''d'' NodeDeleteCAS] =
     ([registerEvent 7 False (service_view ''a'' ''svc1'' ''svc1''),
       serviceHealthDeregisterEvent 7 ''d'', serviceHealthDeregisterEvent 7 ''z''], None) \<and>
   fst (txnServiceHealthEvents runtime_gap sample_store 7
      [NodeMutation ''z'' NodeDelete, ServiceMutation ''a'' ServiceRegister,
       CheckMutation ''c'' CheckDelete, NodeMutation ''d'' NodeDeleteCAS]) =
   fst (txnServiceHealthEvents runtime_gap_rev sample_store 7
      [NodeMutation ''z'' NodeDelete, ServiceMutation ''a'' ServiceRegister,
       CheckMutation ''c'' CheckDelete, NodeMutation ''d'' NodeDeleteCAS])"
proof -
  have run: "txnServiceHealthEvents runtime_gap sample_store 7
      [NodeMutation ''z'' NodeDelete, ServiceMutation ''a'' ServiceRegister,
       CheckMutation ''c'' CheckDelete, NodeMutation ''d'' NodeDeleteCAS] =
     ([registerEvent 7 False (service_view ''a'' ''svc1'' ''svc1''),
       serviceHealthDeregisterEvent 7 ''d'', serviceHealthDeregisterEvent 7 ''z''], None)"
    by (simp add: run_defs)
  have d: "distinct (map event_key (fst (txnServiceHealthEvents runtime_gap sample_store 7
      [NodeMutation ''z'' NodeDelete, ServiceMutation ''a'' ServiceRegister,
       CheckMutation ''c'' CheckDelete, NodeMutation ''d'' NodeDeleteCAS])))"
    unfolding run by (simp add: event_key_def run_defs)
  from deterministic_up_to_ties[OF go_runtime_gap go_runtime_gap_rev, of sample_store 7
      "[NodeMutation ''z'' NodeDelete, ServiceMutation ''a'' ServiceRegister,
       CheckMutation ''c'' CheckDelete, NodeMutation ''d'' NodeDeleteCAS]"] d
  have eq: "fst (txnServiceHealthEvents runtime_gap sample_store 7
      [NodeMutation ''z'' NodeDelete, ServiceMutation ''a'' ServiceRegister,
       CheckMutation ''c'' CheckDelete, NodeMutation ''d'' NodeDeleteCAS]) =
   fst (txnServiceHealthEvents runtime_gap_rev sample_store 7
      [NodeMutation ''z'' NodeDelete, ServiceMutation ''a'' ServiceRegister,
       CheckMutation ''c'' CheckDelete, NodeMutation ''d'' NodeDeleteCAS])"
    by blast
  show ?thesis using go_runtime_gap go_runtime_gap_rev d run eq by blast
qed

text \<open>
  The claim C4 as stated asks for the same sequence from any two runs. On the batch
  \<open>tie_ops\<close> the two events of node \<open>b\<close> have the same sort key, and two runs that
  differ only in the order of the map iteration return them in different orders.
\<close>

theorem deterministic_counterexample:
  "go_runtime runtime_gap \<and> go_runtime runtime_gap_rev \<and>
   sort_Slice runtime_gap = sort_Slice runtime_gap_rev \<and>
   txnServiceHealthEvents runtime_gap sample_store 7 tie_ops =
     ([serviceHealthDeregisterEvent 7 ''a'',
       registerEvent 7 False (service_view ''b'' ''web2'' ''web''),
       registerEvent 7 False (service_view ''b'' ''web1'' ''web''),
       serviceHealthDeregisterEvent 7 ''c'', serviceHealthDeregisterEvent 7 ''d'',
       serviceHealthDeregisterEvent 7 ''e'', serviceHealthDeregisterEvent 7 ''f''], None) \<and>
   txnServiceHealthEvents runtime_gap_rev sample_store 7 tie_ops =
     ([serviceHealthDeregisterEvent 7 ''a'',
       registerEvent 7 False (service_view ''b'' ''web1'' ''web''),
       registerEvent 7 False (service_view ''b'' ''web2'' ''web''),
       serviceHealthDeregisterEvent 7 ''c'', serviceHealthDeregisterEvent 7 ''d'',
       serviceHealthDeregisterEvent 7 ''e'', serviceHealthDeregisterEvent 7 ''f''], None) \<and>
   txnServiceHealthEvents runtime_gap sample_store 7 tie_ops \<noteq>
   txnServiceHealthEvents runtime_gap_rev sample_store 7 tie_ops"
proof -
  have a: "txnServiceHealthEvents runtime_gap sample_store 7 tie_ops =
     ([serviceHealthDeregisterEvent 7 ''a'',
       registerEvent 7 False (service_view ''b'' ''web2'' ''web''),
       registerEvent 7 False (service_view ''b'' ''web1'' ''web''),
       serviceHealthDeregisterEvent 7 ''c'', serviceHealthDeregisterEvent 7 ''d'',
       serviceHealthDeregisterEvent 7 ''e'', serviceHealthDeregisterEvent 7 ''f''], None)"
    by (simp add: run_defs)
  have b: "txnServiceHealthEvents runtime_gap_rev sample_store 7 tie_ops =
     ([serviceHealthDeregisterEvent 7 ''a'',
       registerEvent 7 False (service_view ''b'' ''web1'' ''web''),
       registerEvent 7 False (service_view ''b'' ''web2'' ''web''),
       serviceHealthDeregisterEvent 7 ''c'', serviceHealthDeregisterEvent 7 ''d'',
       serviceHealthDeregisterEvent 7 ''e'', serviceHealthDeregisterEvent 7 ''f''], None)"
    by (simp add: run_defs)
  have c: "registerEvent 7 False (service_view ''b'' ''web2'' ''web'') \<noteq>
      registerEvent 7 False (service_view ''b'' ''web1'' ''web'')"
    by (simp add: run_defs)
  have d: "sort_Slice runtime_gap = sort_Slice runtime_gap_rev"
    by (simp add: runtime_gap_def runtime_gap_rev_def)
  show ?thesis using go_runtime_gap go_runtime_gap_rev d c unfolding a b by simp
qed

text \<open>
  C5. For a node of the batch whose intent is removed, \<^verbatim>\<open>nodeServiceHealth\<close> is not
  called, a transaction that returns no error returns the deregister event of the node
  once, and what the snapshot holds for the node has no influence on the result.
\<close>

theorem tombstone_independence:
  assumes "go_runtime rt" and "(N, True) \<in> set (collect_nodes ops)"
  shows
   "N \<notin> set (resolver_calls rt s idx ops) \<and>
    (snd (txnServiceHealthEvents rt s idx ops) = None \<longrightarrow>
       count_list (fst (txnServiceHealthEvents rt s idx ops))
         (serviceHealthDeregisterEvent idx N) = 1) \<and>
    ((\<forall>M. M \<noteq> N \<longrightarrow> nodeServiceHealth s' idx M = nodeServiceHealth s idx M) \<longrightarrow>
       txnServiceHealthEvents rt s' idx ops = txnServiceHealthEvents rt s idx ops)"
proof (intro conjI impI)
  show "N \<notin> set (resolver_calls rt s idx ops)"
  proof
    assume "N \<in> set (resolver_calls rt s idx ops)"
    then have "(N, False) \<in> set (collect_nodes ops)"
      by (rule resolver_calls_touched[OF assms(1)])
    from collect_nodes_one_intent[OF assms(2) this] show False by simp
  qed
next
  assume ok: "snd (txnServiceHealthEvents rt s idx ops) = None"
  from txn_cases[OF assms(1), of ops s idx] ok
  have "mset (fst (txnServiceHealthEvents rt s idx ops)) =
      mset (concat (map (expand_entry s idx) (collect_nodes ops)))"
    by auto
  then have "count_list (fst (txnServiceHealthEvents rt s idx ops)) (serviceHealthDeregisterEvent idx N) =
      count_list (concat (map (expand_entry s idx) (collect_nodes ops))) (serviceHealthDeregisterEvent idx N)"
    by (simp only: count_mset[symmetric])
  then show "count_list (fst (txnServiceHealthEvents rt s idx ops))
         (serviceHealthDeregisterEvent idx N) = 1"
    using count_deregister_entries[OF distinct_collect_nodes assms(2)] by simp
next
  assume same: "\<forall>M. M \<noteq> N \<longrightarrow> nodeServiceHealth s' idx M = nodeServiceHealth s idx M"
  have "M \<noteq> N" if "(M, False) \<in> set (collect_nodes ops)" for M
    using collect_nodes_one_intent[OF assms(2), of False] that by auto
  then have "\<forall>M. (M, False) \<in> set (map_range rt (collect_nodes ops)) \<longrightarrow>
      nodeServiceHealth s' idx M = nodeServiceHealth s idx M"
    using same by (simp add: go_runtime_range(2)[OF assms(1)])
  from expand_nodes_cong[OF this]
  show "txnServiceHealthEvents rt s' idx ops = txnServiceHealthEvents rt s idx ops"
    by (simp add: txnServiceHealthEvents_def)
qed

theorem tombstone_independence_witness:
  "go_runtime runtime_insertion \<and>
   (''z'', True) \<in> set (collect_nodes
      [ServiceMutation ''a'' ServiceRegister, NodeMutation ''z'' NodeDelete]) \<and>
   ''z'' \<notin> set (resolver_calls runtime_insertion sample_store 7
      [ServiceMutation ''a'' ServiceRegister, NodeMutation ''z'' NodeDelete]) \<and>
   snd (txnServiceHealthEvents runtime_insertion sample_store 7
      [ServiceMutation ''a'' ServiceRegister, NodeMutation ''z'' NodeDelete]) = None \<and>
   count_list (fst (txnServiceHealthEvents runtime_insertion sample_store 7
      [ServiceMutation ''a'' ServiceRegister, NodeMutation ''z'' NodeDelete]))
      (serviceHealthDeregisterEvent 7 ''z'') = 1 \<and>
   snd (nodeServiceHealth sample_store_stale 7 ''z'') = Some (Err ''stale node'') \<and>
   txnServiceHealthEvents runtime_insertion sample_store_stale 7
      [ServiceMutation ''a'' ServiceRegister, NodeMutation ''z'' NodeDelete] =
   txnServiceHealthEvents runtime_insertion sample_store 7
      [ServiceMutation ''a'' ServiceRegister, NodeMutation ''z'' NodeDelete]"
proof -
  have mem: "(''z'', True) \<in> set (collect_nodes
      [ServiceMutation ''a'' ServiceRegister, NodeMutation ''z'' NodeDelete])"
    by (simp add: run_defs)
  have ok: "snd (txnServiceHealthEvents runtime_insertion sample_store 7
      [ServiceMutation ''a'' ServiceRegister, NodeMutation ''z'' NodeDelete]) = None"
    by (simp add: run_defs)
  have same: "\<forall>M. M \<noteq> ''z'' \<longrightarrow>
      nodeServiceHealth sample_store_stale 7 M = nodeServiceHealth sample_store 7 M"
    by (simp add: nodeServiceHealth_def sample_store_stale_def sample_store_def)
  have stale: "snd (nodeServiceHealth sample_store_stale 7 ''z'') = Some (Err ''stale node'')"
    by (simp add: nodeServiceHealth_def sample_store_stale_def)
  from tombstone_independence[OF go_runtime_insertion mem, of sample_store 7 sample_store_stale]
  show ?thesis using go_runtime_insertion mem ok same stale by simp
qed

text \<open>
  C6. The map of nodes has one entry per node, and \<^verbatim>\<open>nodeServiceHealth\<close> is called at
  most once for a node, and only for a node of the map, however many operations of the
  batch touch it. A batch of writes that all touch node \<open>B\<close>, the last of them not a node
  delete, calls it once, for \<open>B\<close>, and returns the sorted events of that one call.
\<close>

theorem resolver_called_once_per_node:
  assumes "go_runtime rt"
  shows
   "distinct (map fst (collect_nodes ops)) \<and>
    fst (expand_nodes_traced s idx (map_range rt (collect_nodes ops)) [] []) =
      expand_nodes s idx (map_range rt (collect_nodes ops)) [] \<and>
    distinct (resolver_calls rt s idx ops) \<and>
    count_list (resolver_calls rt s idx ops) N \<le> 1 \<and>
    set (resolver_calls rt s idx ops) \<subseteq> fst ` set (collect_nodes ops) \<and>
    (ops \<noteq> [] \<and> (\<forall>op\<in>set ops. op_owner op = Some B \<and> \<not> op_is_Get op) \<and>
       \<not> op_is_node_delete (last ops) \<longrightarrow>
       resolver_calls rt s idx ops = [B] \<and>
       txnServiceHealthEvents rt s idx ops =
         (case nodeServiceHealth s idx B of
            (evt, None) \<Rightarrow> (sort_Slice rt event_less evt, None)
          | (evt, Some e) \<Rightarrow> ([], Some e)))"
proof (intro conjI impI)
  show "distinct (map fst (collect_nodes ops))" by (rule distinct_collect_nodes)
  show "fst (expand_nodes_traced s idx (map_range rt (collect_nodes ops)) [] []) =
      expand_nodes s idx (map_range rt (collect_nodes ops)) []"
    by (rule expand_nodes_traced_result)
  show d: "distinct (resolver_calls rt s idx ops)" by (rule resolver_calls_distinct[OF assms])
  show "count_list (resolver_calls rt s idx ops) N \<le> 1" using d by (rule distinct_count_list)
  show "set (resolver_calls rt s idx ops) \<subseteq> fst ` set (collect_nodes ops)"
  proof
    fix M assume "M \<in> set (resolver_calls rt s idx ops)"
    then have "(M, False) \<in> set (collect_nodes ops)" by (rule resolver_calls_touched[OF assms])
    then show "M \<in> fst ` set (collect_nodes ops)" by force
  qed
next
  assume h: "ops \<noteq> [] \<and> (\<forall>op\<in>set ops. op_owner op = Some B \<and> \<not> op_is_Get op) \<and>
       \<not> op_is_node_delete (last ops)"
  then have c: "collect_nodes ops = [(B, False)]"
    using collect_nodes_single_owner[of ops B] by simp
  show "resolver_calls rt s idx ops = [B]" by (rule txn_single_touched(1)[OF assms c])
  show "txnServiceHealthEvents rt s idx ops =
         (case nodeServiceHealth s idx B of
            (evt, None) \<Rightarrow> (sort_Slice rt event_less evt, None)
          | (evt, Some e) \<Rightarrow> ([], Some e))"
    by (rule txn_single_touched(2)[OF assms c])
qed

theorem resolver_called_once_per_node_witness:
  "go_runtime runtime_insertion \<and>
   [NodeMutation ''b'' NodeRegister, ServiceMutation ''b'' ServiceRegister,
    CheckMutation ''b'' CheckRegister] \<noteq> [] \<and>
   list_all (\<lambda>op. op_owner op = Some ''b'' \<and> \<not> op_is_Get op)
     [NodeMutation ''b'' NodeRegister, ServiceMutation ''b'' ServiceRegister,
      CheckMutation ''b'' CheckRegister] \<and>
   \<not> op_is_node_delete (last
     [NodeMutation ''b'' NodeRegister, ServiceMutation ''b'' ServiceRegister,
      CheckMutation ''b'' CheckRegister]) \<and>
   resolver_calls runtime_insertion sample_store 7
     [NodeMutation ''b'' NodeRegister, ServiceMutation ''b'' ServiceRegister,
      CheckMutation ''b'' CheckRegister] = [''b''] \<and>
   txnServiceHealthEvents runtime_insertion sample_store 7
     [NodeMutation ''b'' NodeRegister, ServiceMutation ''b'' ServiceRegister,
      CheckMutation ''b'' CheckRegister] =
     ([registerEvent 7 False (service_view ''b'' ''web1'' ''web''),
       registerEvent 7 False (service_view ''b'' ''web2'' ''web'')], None)"
  using resolver_called_once_per_node[OF go_runtime_insertion, of
      "[NodeMutation ''b'' NodeRegister, ServiceMutation ''b'' ServiceRegister,
        CheckMutation ''b'' CheckRegister]" sample_store 7 "''b''" "''b''"]
    go_runtime_insertion
  by (simp add: run_defs op_owner_def op_is_Get_def op_is_node_delete_def)

text \<open>
  C7, as the code has it. An operation with no node, service or check target falls to
  the empty default case of the switch: it adds no intent, and the transaction returns
  what it returns for the batch without the operation, with no error on its account.
\<close>

theorem no_target_is_skipped:
  assumes "no_target op"
  shows "collect_nodes (xs @ op # ys) = collect_nodes (xs @ ys) \<and>
     txnServiceHealthEvents rt s idx (xs @ op # ys) = txnServiceHealthEvents rt s idx (xs @ ys) \<and>
     resolver_calls rt s idx (xs @ op # ys) = resolver_calls rt s idx (xs @ ys) \<and>
     (go_runtime rt \<longrightarrow> txnServiceHealthEvents rt s idx [op] = ([], None))"
proof -
  have "collect_nodes (xs @ op # ys) = collect_nodes (xs @ ys)"
    using assms by (simp add: collect_nodes_def collect_op_no_target)
  moreover have "collect_nodes [op] = []"
    using assms by (simp add: collect_nodes_def collect_op_no_target)
  ultimately show ?thesis
    by (simp add: txnServiceHealthEvents_def resolver_calls_def go_runtime_nil)
qed

theorem no_target_is_skipped_witness:
  "no_target \<lparr>TxnOp_Node = None, TxnOp_Service = None, TxnOp_Check = None\<rparr> \<and>
   go_runtime runtime_insertion \<and>
   txnServiceHealthEvents runtime_insertion sample_store 7
     [\<lparr>TxnOp_Node = None, TxnOp_Service = None, TxnOp_Check = None\<rparr>] = ([], None) \<and>
   txnServiceHealthEvents runtime_insertion sample_store 7
     ([ServiceMutation ''a'' ServiceRegister] @
      \<lparr>TxnOp_Node = None, TxnOp_Service = None, TxnOp_Check = None\<rparr> #
      [NodeMutation ''z'' NodeDelete]) =
   txnServiceHealthEvents runtime_insertion sample_store 7
     ([ServiceMutation ''a'' ServiceRegister] @ [NodeMutation ''z'' NodeDelete])"
  using no_target_is_skipped[of "\<lparr>TxnOp_Node = None, TxnOp_Service = None, TxnOp_Check = None\<rparr>"
      "[ServiceMutation ''a'' ServiceRegister]" "[NodeMutation ''z'' NodeDelete]"
      runtime_insertion sample_store 7]
    go_runtime_insertion
  by (simp add: no_target_def)

text \<open>
  The claim C7 as stated asks for a failure. A batch of one operation with no target
  returns no events and a nil error.
\<close>

theorem no_target_counterexample:
  "go_runtime runtime_insertion \<and>
   no_target \<lparr>TxnOp_Node = None, TxnOp_Service = None, TxnOp_Check = None\<rparr> \<and>
   txnServiceHealthEvents runtime_insertion sample_store 7
     [\<lparr>TxnOp_Node = None, TxnOp_Service = None, TxnOp_Check = None\<rparr>] = ([], None)"
proof -
  have "txnServiceHealthEvents runtime_insertion sample_store 7
     [\<lparr>TxnOp_Node = None, TxnOp_Service = None, TxnOp_Check = None\<rparr>] = ([], None)"
    by (simp add: txnServiceHealthEvents_def collect_nodes_def collect_op_def
        runtime_insertion_def insertion_sort_def)
  then show ?thesis by (simp add: go_runtime_insertion no_target_def)
qed

text \<open>
  C8. A batch whose operations all carry the read verb, the empty batch among them,
  leaves the map of nodes empty, calls the resolver for no node, and yields no events and
  no error.
\<close>

theorem read_only_noop:
  assumes "go_runtime rt" and "\<forall>op\<in>set ops. op_is_Get op"
  shows "collect_nodes ops = [] \<and> resolver_calls rt s idx ops = [] \<and>
     txnServiceHealthEvents rt s idx ops = ([], None)"
  using assms
  by (simp add: collect_nodes_all_Get resolver_calls_def txnServiceHealthEvents_def
      go_runtime_nil)

theorem read_only_noop_witness:
  "go_runtime runtime_insertion \<and>
   list_all op_is_Get
     [NodeMutation ''a'' NodeGet, ServiceMutation ''a'' ServiceGet, CheckMutation ''b'' CheckGet] \<and>
   txnServiceHealthEvents runtime_insertion sample_store 7
     [NodeMutation ''a'' NodeGet, ServiceMutation ''a'' ServiceGet, CheckMutation ''b'' CheckGet] =
     ([], None) \<and>
   txnServiceHealthEvents runtime_insertion sample_store 7 [] = ([], None)"
  using read_only_noop[OF go_runtime_insertion, of
      "[NodeMutation ''a'' NodeGet, ServiceMutation ''a'' ServiceGet, CheckMutation ''b'' CheckGet]"
      sample_store 7]
    read_only_noop[OF go_runtime_insertion, of "[]" sample_store 7]
  by (simp add: go_runtime_insertion op_is_Get_def NodeMutation_def ServiceMutation_def
      CheckMutation_def)

text \<open>
  C9. For every health view handed to \<^verbatim>\<open>checkServiceNodesToServiceHealth\<close> the function
  builds one register event, in the order of the views: its key is the service name when
  the view has a service and empty otherwise, its topic is the connect topic when
  \<open>connect\<close> is set and the plain health topic otherwise, its index is \<open>idx\<close>. With no
  buffer the events are returned; with a buffer each event is appended on its own, as a
  slice of one element, and nothing is returned.
\<close>

theorem upsert_event_shape:
  "checkServiceNodesToServiceHealth idx nodes None connect =
     (map (registerEvent idx connect) nodes, None) \<and>
   checkServiceNodesToServiceHealth idx nodes (Some b) connect =
     ([], Some (foldl Append b (map (\<lambda>n. [registerEvent idx connect n]) nodes))) \<and>
   Key (registerEvent idx connect n) =
     (case CSN_Service n of Some sv \<Rightarrow> NodeService_Service sv | None \<Rightarrow> []) \<and>
   Topic (registerEvent idx connect n) =
     (if connect then Topic_ServiceHealthConnect else Topic_ServiceHealth) \<and>
   Index (registerEvent idx connect n) = idx \<and>
   Op (GetServiceHealth (registerEvent idx connect n)) = CatalogOp_Register \<and>
   CheckServiceNode (GetServiceHealth (registerEvent idx connect n)) = ToCheckServiceNode n"
  by (simp add: checkServiceNodesToServiceHealth_def toServiceHealth_loop_None
      toServiceHealth_loop_Some registerEvent_def)

text \<open>
  C10. A deregister event has the plain health topic, an empty key, the operation
  Deregister, the index it is given, and a payload with the node name alone: no service
  and no checks; the function takes no connect mode. Every deregister event among the
  events of a transaction is the one built for a node of the batch whose intent is
  removed, with the index of the transaction.
\<close>

theorem tombstone_shape:
  "Topic (serviceHealthDeregisterEvent idx node) = Topic_ServiceHealth \<and>
   Key (serviceHealthDeregisterEvent idx node) = [] \<and>
   Index (serviceHealthDeregisterEvent idx node) = idx \<and>
   Op (GetServiceHealth (serviceHealthDeregisterEvent idx node)) = CatalogOp_Deregister \<and>
   CheckServiceNode (GetServiceHealth (serviceHealthDeregisterEvent idx node)) =
     \<lparr>CSN_Node = \<lparr>Node_Node = node\<rparr>, CSN_Service = None, CSN_Checks = []\<rparr> \<and>
   (go_runtime rt \<longrightarrow>
     (\<forall>e\<in>set (fst (txnServiceHealthEvents rt s idx ops)).
        Op (GetServiceHealth e) = CatalogOp_Deregister \<longrightarrow>
        (\<exists>N. (N, True) \<in> set (collect_nodes ops) \<and> e = serviceHealthDeregisterEvent idx N)))"
proof -
  have "\<exists>N. (N, True) \<in> set (collect_nodes ops) \<and> e = serviceHealthDeregisterEvent idx N"
    if rt: "go_runtime rt" and e: "e \<in> set (fst (txnServiceHealthEvents rt s idx ops))"
      and d: "Op (GetServiceHealth e) = CatalogOp_Deregister" for e
  proof -
    from txn_events_mem[OF rt e] obtain en where en: "en \<in> set (collect_nodes ops)"
      "e \<in> set (expand_entry s idx en)" by blast
    from expand_entry_deregister[OF en(2) d]
    have "snd en" "e = serviceHealthDeregisterEvent idx (fst en)" by simp_all
    then have "(fst en, True) \<in> set (collect_nodes ops) \<and> e = serviceHealthDeregisterEvent idx (fst en)"
      using en(1) by (cases en) simp
    then show ?thesis by blast
  qed
  then have "go_runtime rt \<longrightarrow>
     (\<forall>e\<in>set (fst (txnServiceHealthEvents rt s idx ops)).
        Op (GetServiceHealth e) = CatalogOp_Deregister \<longrightarrow>
        (\<exists>N. (N, True) \<in> set (collect_nodes ops) \<and> e = serviceHealthDeregisterEvent idx N))"
    by blast
  then show ?thesis using deregister_fields[of idx node] by blast
qed

theorem tombstone_shape_witness:
  "go_runtime runtime_insertion \<and>
   fst (txnServiceHealthEvents runtime_insertion sample_store 7
     [NodeMutation ''z'' NodeDelete, ServiceMutation ''a'' ServiceRegister]) =
     [registerEvent 7 False (service_view ''a'' ''svc1'' ''svc1''),
      serviceHealthDeregisterEvent 7 ''z''] \<and>
   Op (GetServiceHealth (serviceHealthDeregisterEvent 7 ''z'')) = CatalogOp_Deregister \<and>
   Topic (serviceHealthDeregisterEvent 7 ''z'') = Topic_ServiceHealth \<and>
   (\<exists>N. (N, True) \<in> set (collect_nodes
       [NodeMutation ''z'' NodeDelete, ServiceMutation ''a'' ServiceRegister]) \<and>
     serviceHealthDeregisterEvent 7 ''z'' = serviceHealthDeregisterEvent 7 N)"
proof -
  have run: "fst (txnServiceHealthEvents runtime_insertion sample_store 7
     [NodeMutation ''z'' NodeDelete, ServiceMutation ''a'' ServiceRegister]) =
     [registerEvent 7 False (service_view ''a'' ''svc1'' ''svc1''),
      serviceHealthDeregisterEvent 7 ''z'']"
    by (simp add: run_defs)
  from tombstone_shape[of 7 "''z''" runtime_insertion sample_store
      "[NodeMutation ''z'' NodeDelete, ServiceMutation ''a'' ServiceRegister]"]
  show ?thesis using go_runtime_insertion run by simp
qed

end
